theory Spec2Isabelle
  imports Complex_Main "HOL-Library.Log_Nat"
begin

section \<open>JavaScript numbers\<close>

text \<open>
  A JavaScript number is an IEEE 754 double. The model keeps a finite double as the real
  number it denotes, and rounds the exact result of every arithmetic operation of the
  code to the nearest double, ties to even, as the hardware does: \<open>a * b\<close> of the code
  is \<open>fl (a * b)\<close> here, and a decimal literal such as \<open>0.55\<close> is \<open>fl 0.55\<close>.

  \<open>rne\<close> rounds a real to the nearest integer, ties to even. \<open>expo y\<close> is the
  binary exponent of a positive \<open>y\<close>, the \<open>e\<close> with \<open>2^e \<le> y < 2^(e+1)\<close>. A
  double near \<open>x\<close> is a multiple of \<open>2^(quantum x)\<close>: 53 significant bits, and
  never finer than \<open>2^(-1074)\<close>, the spacing of the subnormal numbers. \<open>fl\<close> has no
  upper limit; where a result of \<open>2^1024\<close> or more would reach a claim, the code's
  \<open>Infinity\<close> is written out (see \<open>calculateMessageLines\<close>).

  Values that the code produces with \<open>Math.ceil\<close>, \<open>Math.floor\<close> or by counting
  are \<^typ>\<open>int\<close>; they stay below \<open>2^53\<close> in any run, where doubles are exact on
  integers.
\<close>

definition rne :: "real \<Rightarrow> int" where
  "rne x =
     (let f = \<lfloor>x\<rfloor>; d = x - of_int f
      in if d < 1 / 2 then f
         else if 1 / 2 < d then f + 1
         else if even f then f else f + 1)"

definition expo :: "real \<Rightarrow> int" where
  "expo y =
     (if 1 \<le> y then bitlen \<lfloor>y\<rfloor> - 1
      else - bitlen (\<lceil>1 / y\<rceil> - 1))"

definition roundTo :: "int \<Rightarrow> real \<Rightarrow> real" where
  "roundTo q x = of_int (rne (x / 2 powi q)) * 2 powi q"

definition quantum :: "real \<Rightarrow> int" where
  "quantum x = max (expo \<bar>x\<bar> - 52) (- 1074)"

definition fl :: "real \<Rightarrow> real" where
  "fl x = (if x = 0 then 0 else roundTo (quantum x) x)"

section \<open>Configuration\<close>

text \<open>
  The configuration module (\<open>config.js\<close>) is a single shared object of constants.
\<close>

definition OUTPUT_WIDTH :: real where
  "OUTPUT_WIDTH = 400"

definition FRAMERATE :: real where
  "FRAMERATE = 30"

definition BATCH_WINDOW_MS :: real where
  "BATCH_WINDOW_MS = 500"

definition BATCH_MAX_MESSAGES :: nat where
  "BATCH_MAX_MESSAGES = 12"

definition FONT_SIZE_PX :: real where
  "FONT_SIZE_PX = 16"

definition MAX_VISIBLE_LINES :: int where
  "MAX_VISIBLE_LINES = 27"

definition HORIZONTAL_PADDING_PX :: real where
  "HORIZONTAL_PADDING_PX = 12"

section \<open>Frame scheduler (frame-scheduler.js)\<close>

record FrameScheduler =
  streamDurationMs :: real
  frameDurationMs :: real
  totalFrames :: int
  currentFrame :: int

text \<open>The constructor.\<close>

definition newFrameScheduler :: "real \<Rightarrow> FrameScheduler" where
  "newFrameScheduler durationMs =
     \<lparr> streamDurationMs = durationMs,
       frameDurationMs = fl (1000 / FRAMERATE),
       totalFrames = \<lceil>fl (durationMs / fl (1000 / FRAMERATE))\<rceil>,
       currentFrame = 0 \<rparr>"

definition getCurrentTimeMs :: "FrameScheduler \<Rightarrow> real" where
  "getCurrentTimeMs s = fl (real_of_int (currentFrame s) * frameDurationMs s)"

text \<open>\<open>advance\<close> increments the cursor and returns whether frames remain.\<close>

definition advance :: "FrameScheduler \<Rightarrow> bool \<times> FrameScheduler" where
  "advance s =
     (let s' = s\<lparr>currentFrame := currentFrame s + 1\<rparr>
      in (currentFrame s' < totalFrames s', s'))"

text \<open>
  \<open>getFrameCountUntil\<close>: the argument is \<open>None\<close> for JavaScript's \<open>null\<close>.
  The divisor \<open>frameDurationMs\<close> is the double nearest to \<open>1000 / FRAMERATE\<close> in
  every scheduler the constructor builds, and no operation changes it; the model says
  nothing of a scheduler whose \<open>frameDurationMs\<close> is zero.
\<close>

definition getFrameCountUntil :: "FrameScheduler \<Rightarrow> real option \<Rightarrow> int" where
  "getFrameCountUntil s nextEventTimeMs =
     (let currentTimeMs = getCurrentTimeMs s
      in case nextEventTimeMs of
           None \<Rightarrow> totalFrames s - currentFrame s
         | Some t \<Rightarrow>
             (let durationMs = fl (t - currentTimeMs);
                  frameCount = max 1 \<lfloor>fl (durationMs / frameDurationMs s)\<rfloor>
              in min frameCount (totalFrames s - currentFrame s)))"

definition skipFrames :: "FrameScheduler \<Rightarrow> int \<Rightarrow> FrameScheduler" where
  "skipFrames s count = s\<lparr>currentFrame := min (currentFrame s + count) (totalFrames s)\<rparr>"

definition isDone :: "FrameScheduler \<Rightarrow> bool" where
  "isDone s = (currentFrame s \<ge> totalFrames s)"





section \<open>Messages\<close>

text \<open>
  The unified message object, as the batcher's constructor documents it. Fields that the
  code reads through optional chaining (\<open>message.author?.badges\<close>,
  \<open>message.author?.name\<close>, \<open>message.content?.segments\<close>) may be absent and are
  options. The \<open>length\<close> of a string is its number of code units.
\<close>

datatype msg_type = Chat | Superchat | Bits | Membership | Gift | Deleted

datatype segment =
    TextSeg (seg_value: string)
  | EmojiSeg (emoji_id: string) (emoji_name: string)
  | OtherSeg (seg_type: string)

record author =
  author_id :: string
  name :: "string option"
  badges :: "string list option"

record content =
  raw :: string
  segments :: "segment list option"

record message =
  msg_id :: string
  timestamp_ms :: real
  msg_kind :: msg_type
  msg_author :: "author option"
  msg_content :: "content option"

section \<open>Message batcher (batcher.js)\<close>

record MessageBatcher =
  messages :: "message list"
  currentIndex :: nat

definition newMessageBatcher :: "message list \<Rightarrow> MessageBatcher" where
  "newMessageBatcher msgs = \<lparr> messages = msgs, currentIndex = 0 \<rparr>"

text \<open>
  The \<open>while\<close> loop of \<open>getNextBatch\<close>, on the batch built so far and the batcher.
  The two tests on the timestamp are kept as the code has them; on numbers other than
  \<open>NaN\<close> the second holds whenever the first fails.
\<close>

function getNextBatch_loop ::
  "real \<Rightarrow> message list \<Rightarrow> MessageBatcher \<Rightarrow> message list \<times> MessageBatcher" where
  "getNextBatch_loop windowEnd batch b =
     (if currentIndex b < length (messages b) then
        (let msg = messages b ! currentIndex b in
         if timestamp_ms msg > windowEnd then (batch, b)
         else if timestamp_ms msg \<le> windowEnd then
           (if length (batch @ [msg]) \<ge> BATCH_MAX_MESSAGES
            then (batch @ [msg], b\<lparr>currentIndex := currentIndex b + 1\<rparr>)
            else getNextBatch_loop windowEnd (batch @ [msg])
                   (b\<lparr>currentIndex := currentIndex b + 1\<rparr>))
         else
           (if length batch \<ge> BATCH_MAX_MESSAGES then (batch, b)
            else getNextBatch_loop windowEnd batch b))
      else (batch, b))"
  by pat_completeness auto
termination
  by (relation "measure (\<lambda>(w, batch, b). length (messages b) - currentIndex b)") auto

declare getNextBatch_loop.simps [simp del]

text \<open>
  \<open>getNextBatch\<close> returns the batch, \<open>nextBatchTimeMs\<close> (\<open>None\<close> for \<open>null\<close>) and
  the batcher with its cursor moved.
\<close>

definition getNextBatch ::
  "MessageBatcher \<Rightarrow> real \<Rightarrow> (message list \<times> real option) \<times> MessageBatcher" where
  "getNextBatch b currentTimeMs =
     (let windowEnd = fl (currentTimeMs + BATCH_WINDOW_MS);
          (batch, b') = getNextBatch_loop windowEnd [] b;
          nextBatchTimeMs =
            (if currentIndex b' < length (messages b')
             then Some (timestamp_ms (messages b' ! currentIndex b'))
             else None)
      in ((batch, nextBatchTimeMs), b'))"

text \<open>The getter \<open>streamDurationMs\<close> of the batcher.\<close>

definition batcher_streamDurationMs :: "MessageBatcher \<Rightarrow> real" where
  "batcher_streamDurationMs b =
     (if length (messages b) = 0 then 0
      else timestamp_ms (messages b ! (length (messages b) - 1)))"

text \<open>
  A sequence of \<open>getNextBatch\<close> calls at the given times, with no \<open>reset\<close> between
  them: the batches returned, in call order, and the batcher afterwards.
\<close>

fun getBatches :: "MessageBatcher \<Rightarrow> real list \<Rightarrow> message list list \<times> MessageBatcher" where
  "getBatches b [] = ([], b)"
| "getBatches b (t # ts) =
     (let ((batch, nxt), b') = getNextBatch b t;
          (rest, b'') = getBatches b' ts
      in (batch # rest, b''))"

text \<open>The cursor positions a sequence of calls goes through, the starting one first.\<close>

fun batchCursors :: "MessageBatcher \<Rightarrow> real list \<Rightarrow> nat list" where
  "batchCursors b [] = [currentIndex b]"
| "batchCursors b (t # ts) = currentIndex b # batchCursors (snd (getNextBatch b t)) ts"

section \<open>Chat state (chat-state.js)\<close>

text \<open>
  An entry of the visible buffer is the message with the two fields the buffer adds:
  \<open>_lineCount\<close>, and \<open>_deleted\<close>, which is unset (read as false) until
  \<open>markDeleted\<close> sets it.
\<close>

record entry =
  entry_msg :: message
  lineCount :: int
  deleted :: bool

record ChatState =
  visibleMessages :: "entry list"
  totalLineCount :: int

definition newChatState :: ChatState where
  "newChatState = \<lparr> visibleMessages = [], totalLineCount = 0 \<rparr>"

definition AVG_CHAR_WIDTH_PX :: real where
  "AVG_CHAR_WIDTH_PX = fl (FONT_SIZE_PX * fl 0.55)"

definition BADGE_WIDTH_PX :: real where
  "BADGE_WIDTH_PX = fl (FONT_SIZE_PX + 4)"

definition EMOJI_WIDTH_PX :: real where
  "EMOJI_WIDTH_PX = fl (FONT_SIZE_PX + 2)"

text \<open>The default value of the parameter \<open>containerWidth\<close>.\<close>

definition defaultContainerWidth :: real where
  "defaultContainerWidth = fl (OUTPUT_WIDTH - fl (HORIZONTAL_PADDING_PX * 2))"

text \<open>The loop over the segments, adding to the width accumulated so far.\<close>

fun segmentsWidth :: "real \<Rightarrow> segment list \<Rightarrow> real" where
  "segmentsWidth contentWidth [] = contentWidth"
| "segmentsWidth contentWidth (TextSeg v # rest) =
     segmentsWidth (fl (contentWidth + fl (real (length v) * AVG_CHAR_WIDTH_PX))) rest"
| "segmentsWidth contentWidth (EmojiSeg i n # rest) =
     segmentsWidth (fl (contentWidth + EMOJI_WIDTH_PX)) rest"
| "segmentsWidth contentWidth (OtherSeg t # rest) = segmentsWidth contentWidth rest"

text \<open>
  The body of \<open>calculateMessageLines\<close> up to the division: the estimated width of the
  content, each product and each sum rounded. An empty author name is falsy and adds
  nothing, as an absent one.
\<close>

definition contentWidthOf :: "message \<Rightarrow> real" where
  "contentWidthOf message =
     (let contentWidth = 0;
          contentWidth =
            (case msg_author message of
               Some a \<Rightarrow>
                 (case badges a of
                    Some bs \<Rightarrow> fl (contentWidth + fl (real (length bs) * BADGE_WIDTH_PX))
                  | None \<Rightarrow> contentWidth)
             | None \<Rightarrow> contentWidth);
          contentWidth =
            (case msg_author message of
               Some a \<Rightarrow>
                 (case name a of
                    Some n \<Rightarrow>
                      (if n \<noteq> []
                       then fl (contentWidth + fl (real (length n + 2) * AVG_CHAR_WIDTH_PX))
                       else contentWidth)
                  | None \<Rightarrow> contentWidth)
             | None \<Rightarrow> contentWidth);
          contentWidth =
            (case msg_content message of
               Some c \<Rightarrow>
                 (case segments c of
                    Some segs \<Rightarrow> segmentsWidth contentWidth segs
                  | None \<Rightarrow> contentWidth)
             | None \<Rightarrow> contentWidth);
          contentWidth =
            (if msg_kind message = Superchat \<or> msg_kind message = Bits
             then fl (contentWidth + 100) else contentWidth)
      in contentWidth)"

text \<open>
  What \<open>calculateMessageLines\<close> returns: a number of lines, or one of the two numbers
  that are no number of lines, \<open>Infinity\<close> and \<open>NaN\<close>.
\<close>

datatype line_estimate = Lines int | InfiniteLines | NotANumber

text \<open>A result that rounds to this or more is \<open>Infinity\<close> in the code.\<close>

definition overflowLimit :: real where
  "overflowLimit = 2 ^ 1024"

text \<open>
  \<open>calculateMessageLines\<close> with the width given. Dividing by a width of zero gives
  \<open>NaN\<close> for an estimated width of zero and \<open>Infinity\<close> otherwise. For a positive
  width the quotient is \<open>Infinity\<close> when it overflows, that is when it rounds to
  \<open>2^1024\<close> or more, or when the estimated width itself has overflowed. \<open>Math.ceil\<close>
  and \<open>Math.max\<close> hand \<open>NaN\<close> and \<open>Infinity\<close> on. For a negative width an
  overflowing quotient is \<open>-Infinity\<close>, and \<open>Math.max(1, -Infinity)\<close> is 1, as for
  any other quotient that is not positive.
\<close>

definition calculateMessageLines :: "message \<Rightarrow> real \<Rightarrow> line_estimate" where
  "calculateMessageLines message containerWidth =
     (let contentWidth = contentWidthOf message
      in if containerWidth = 0
         then (if contentWidth = 0 then NotANumber else InfiniteLines)
         else if 0 < containerWidth
                 \<and> (overflowLimit \<le> contentWidth
                      \<or> overflowLimit \<le> fl (contentWidth / containerWidth))
         then InfiniteLines
         else (let lines = \<lceil>fl (contentWidth / containerWidth)\<rceil>
               in Lines (max 1 lines)))"

text \<open>
  \<open>calculateMessageLines\<close> called with the message only, as \<open>addMessages\<close> does: the
  width is the default, 376. The result is written as an integer: the quotient does not
  overflow for a message that a JavaScript engine can hold, whose strings and arrays have
  fewer than \<open>2^53\<close> elements.
\<close>

definition calculateMessageLines_default :: "message \<Rightarrow> int" where
  "calculateMessageLines_default message =
     (let lines = \<lceil>fl (contentWidthOf message / defaultContainerWidth)\<rceil>
      in max 1 lines)"

text \<open>
  The order of the estimates: numbers of lines by size, \<open>Infinity\<close> above them all,
  \<open>NaN\<close> comparable with nothing.
\<close>

fun estimate_le :: "line_estimate \<Rightarrow> line_estimate \<Rightarrow> bool" where
  "estimate_le (Lines a) (Lines b) = (a \<le> b)"
| "estimate_le (Lines a) InfiniteLines = True"
| "estimate_le InfiniteLines InfiniteLines = True"
| "estimate_le x y = False"

text \<open>The \<open>while\<close> loop of \<open>_trimOverflow\<close>; \<open>shift\<close> removes the first entry.\<close>

function trimOverflow :: "ChatState \<Rightarrow> ChatState" where
  "trimOverflow s =
     (if totalLineCount s > MAX_VISIBLE_LINES \<and> length (visibleMessages s) > 0 then
        (let removed = hd (visibleMessages s)
         in trimOverflow
              (s\<lparr>visibleMessages := tl (visibleMessages s),
                 totalLineCount := totalLineCount s - lineCount removed\<rparr>))
      else s)"
  by pat_completeness auto
termination
  by (relation "measure (\<lambda>s. length (visibleMessages s))") auto

declare trimOverflow.simps [simp del]

text \<open>The \<open>for\<close> loop of \<open>addMessages\<close>.\<close>

fun addMessages_loop :: "ChatState \<Rightarrow> message list \<Rightarrow> ChatState" where
  "addMessages_loop s [] = s"
| "addMessages_loop s (msg # rest) =
     (let lineCount = calculateMessageLines_default msg
      in addMessages_loop
           (s\<lparr>visibleMessages :=
                 visibleMessages s @ [\<lparr>entry_msg = msg, lineCount = lineCount, deleted = False\<rparr>],
               totalLineCount := totalLineCount s + lineCount\<rparr>)
           rest)"

definition addMessages :: "ChatState \<Rightarrow> message list \<Rightarrow> ChatState" where
  "addMessages s msgs = trimOverflow (addMessages_loop s msgs)"

text \<open>
  \<open>markDeleted\<close>: \<open>find\<close> yields the first entry with the identifier, and the flag is
  set on that entry in place.
\<close>

fun markFirst :: "entry list \<Rightarrow> string \<Rightarrow> entry list" where
  "markFirst [] messageId = []"
| "markFirst (m # ms) messageId =
     (if msg_id (entry_msg m) = messageId then m\<lparr>deleted := True\<rparr> # ms
      else m # markFirst ms messageId)"

definition markDeleted :: "ChatState \<Rightarrow> string \<Rightarrow> ChatState" where
  "markDeleted s messageId = s\<lparr>visibleMessages := markFirst (visibleMessages s) messageId\<rparr>"

definition clear :: "ChatState \<Rightarrow> ChatState" where
  "clear s = s\<lparr>visibleMessages := [], totalLineCount := 0\<rparr>"

record chat_view =
  view_messages :: "entry list"
  totalLines :: int
  maxLines :: int

definition getState :: "ChatState \<Rightarrow> chat_view" where
  "getState s =
     \<lparr> view_messages = visibleMessages s,
       totalLines = totalLineCount s,
       maxLines = MAX_VISIBLE_LINES \<rparr>"

text \<open>The public state-changing calls on the buffer, and runs of them from a state.\<close>

datatype chat_op = AddMessages "message list" | MarkDeleted string | Clear

fun chat_step :: "ChatState \<Rightarrow> chat_op \<Rightarrow> ChatState" where
  "chat_step s (AddMessages msgs) = addMessages s msgs"
| "chat_step s (MarkDeleted messageId) = markDeleted s messageId"
| "chat_step s Clear = clear s"

fun chat_run :: "ChatState \<Rightarrow> chat_op list \<Rightarrow> ChatState" where
  "chat_run s [] = s"
| "chat_run s (x # xs) = chat_run (chat_step s x) xs"

text \<open>The sum of the line counts of the entries in the buffer.\<close>

definition visibleLines :: "ChatState \<Rightarrow> int" where
  "visibleLines s = sum_list (map lineCount (visibleMessages s))"

text \<open>
  The invariant of the buffer: the running total is the sum of the stored line counts,
  and every stored line count is at least one.
\<close>

definition chat_inv :: "ChatState \<Rightarrow> bool" where
  "chat_inv s =
     (totalLineCount s = visibleLines s \<and> (\<forall>e \<in> set (visibleMessages s). 1 \<le> lineCount e))"

text \<open>
  What the estimator reads of a message: the badges, the author name and the segments,
  each empty when absent.
\<close>

definition badgesOf :: "message \<Rightarrow> string list" where
  "badgesOf m =
     (case msg_author m of
        Some a \<Rightarrow> (case badges a of Some bs \<Rightarrow> bs | None \<Rightarrow> [])
      | None \<Rightarrow> [])"

definition nameOf :: "message \<Rightarrow> string" where
  "nameOf m =
     (case msg_author m of
        Some a \<Rightarrow> (case name a of Some n \<Rightarrow> n | None \<Rightarrow> [])
      | None \<Rightarrow> [])"

definition segmentsOf :: "message \<Rightarrow> segment list" where
  "segmentsOf m =
     (case msg_content m of
        Some c \<Rightarrow> (case segments c of Some segs \<Rightarrow> segs | None \<Rightarrow> [])
      | None \<Rightarrow> [])"

text \<open>
  Extending content. A segment is extended by a text segment at least as long, or is
  kept; a segment list is extended by extending its segments and adding segments
  anywhere; a message is extended by adding badges, lengthening the author name and
  extending the segment list, the message type staying the same.
\<close>

fun seg_le :: "segment \<Rightarrow> segment \<Rightarrow> bool" where
  "seg_le (TextSeg v) (TextSeg v') = (length v \<le> length v')"
| "seg_le x y = (x = y)"

fun segs_extend :: "segment list \<Rightarrow> segment list \<Rightarrow> bool" where
  "segs_extend [] ys = True"
| "segs_extend (x # xs) [] = False"
| "segs_extend (x # xs) (y # ys) = ((seg_le x y \<and> segs_extend xs ys) \<or> segs_extend (x # xs) ys)"

definition extends :: "message \<Rightarrow> message \<Rightarrow> bool" where
  "extends m m' =
     (msg_kind m' = msg_kind m
      \<and> length (badgesOf m) \<le> length (badgesOf m')
      \<and> length (nameOf m) \<le> length (nameOf m')
      \<and> segs_extend (segmentsOf m) (segmentsOf m'))"

text \<open>A chat message with one text segment, for examples.\<close>

definition textMessage :: "string \<Rightarrow> real \<Rightarrow> string \<Rightarrow> message" where
  "textMessage i t txt =
     \<lparr> msg_id = i, timestamp_ms = t, msg_kind = Chat,
       msg_author = Some \<lparr> author_id = ''u1'', name = Some ''bob'', badges = Some [] \<rparr>,
       msg_content = Some \<lparr> raw = txt, segments = Some [TextSeg txt] \<rparr> \<rparr>"

section \<open>The render loop (index.js)\<close>

text \<open>
  The renderer and the encoder are external. Of the renderer the model keeps the page
  content: the state last passed to \<open>updateChat\<close>, \<open>None\<close> for the template as
  loaded. A captured frame is the page content at the time of the capture, and of the
  encoder the model keeps the frames written to it, in order. Both are taken to succeed.
\<close>

record ChatRenderer =
  batcher :: MessageBatcher
  chatState :: ChatState
  scheduler :: FrameScheduler
  page :: "chat_view option"
  written :: "chat_view option list"

definition initialize :: "message list \<Rightarrow> ChatRenderer" where
  "initialize msgs =
     (let b = newMessageBatcher msgs
      in \<lparr> batcher = b,
           chatState = newChatState,
           scheduler = newFrameScheduler (batcher_streamDurationMs b),
           page = None,
           written = [] \<rparr>)"

definition captureAndWrite :: "ChatRenderer \<Rightarrow> chat_view option \<times> ChatRenderer" where
  "captureAndWrite r =
     (let frame = page r
      in (frame, r\<lparr>written := written r @ [frame],
                   scheduler := snd (advance (scheduler r))\<rparr>))"

text \<open>
  One pass through the body of the \<open>while\<close> loop of \<open>render\<close>, on the local
  \<open>currentFrame\<close> (here \<open>curFrame\<close>) and the components. \<open>writeFrameRepeat\<close>
  writes the frame \<open>count\<close> times, and not at all for a count below one.
\<close>

definition render_iteration :: "chat_view option \<times> ChatRenderer \<Rightarrow> chat_view option \<times> ChatRenderer" where
  "render_iteration cr =
     (let curFrame = fst cr;
          r = snd cr;
          currentTimeMs = getCurrentTimeMs (scheduler r);
          res = getNextBatch (batcher r) currentTimeMs;
          batch = fst (fst res);
          nextBatchTimeMs = snd (fst res);
          r = r\<lparr>batcher := snd res\<rparr>;
          r = (if length batch > 0
               then (let cs = addMessages (chatState r) batch
                     in r\<lparr>chatState := cs, page := Some (getState cs)\<rparr>)
               else r);
          curFrame = (if length batch > 0 then page r else curFrame);
          frameCount = getFrameCountUntil (scheduler r) nextBatchTimeMs;
          r = r\<lparr>written := written r @ replicate (nat frameCount) curFrame\<rparr>;
          r = r\<lparr>scheduler := skipFrames (scheduler r) frameCount\<rparr>
      in (curFrame, r))"

function render_loop :: "chat_view option \<times> ChatRenderer \<Rightarrow> chat_view option \<times> ChatRenderer" where
  "render_loop cr =
     (if isDone (scheduler (snd cr)) then cr else render_loop (render_iteration cr))"
  by pat_completeness auto
termination
proof (relation "measure (\<lambda>cr. nat (totalFrames (scheduler (snd cr)) - currentFrame (scheduler (snd cr))))")
  show "wf (measure (\<lambda>cr. nat (totalFrames (scheduler (snd cr)) - currentFrame (scheduler (snd cr)))))"
    by simp
next
  fix cr :: "chat_view option \<times> ChatRenderer"
  assume nd: "\<not> isDone (scheduler (snd cr))"
  let ?s = "scheduler (snd cr)"
  let ?res = "getNextBatch (batcher (snd cr)) (getCurrentTimeMs ?s)"
  let ?n = "getFrameCountUntil ?s (snd (fst ?res))"
  have sch: "scheduler (snd (render_iteration cr)) = skipFrames ?s ?n"
    by (simp add: render_iteration_def Let_def)
  have "1 \<le> ?n"
    using nd by (cases "snd (fst ?res)") (auto simp add: getFrameCountUntil_def isDone_def Let_def)
  then have "currentFrame ?s < currentFrame (skipFrames ?s ?n)"
    using nd by (simp add: skipFrames_def isDone_def)
  moreover have "totalFrames (skipFrames ?s ?n) = totalFrames ?s"
    by (simp add: skipFrames_def)
  moreover have "currentFrame (skipFrames ?s ?n) \<le> totalFrames ?s"
    by (simp add: skipFrames_def)
  ultimately show "(render_iteration cr, cr)
      \<in> measure (\<lambda>cr. nat (totalFrames (scheduler (snd cr)) - currentFrame (scheduler (snd cr))))"
    using sch by simp
qed

declare render_loop.simps [simp del]

text \<open>\<open>render\<close> after \<open>initialize\<close>: the initial frame, then the loop.\<close>

definition render :: "message list \<Rightarrow> ChatRenderer" where
  "render msgs = snd (render_loop (captureAndWrite (initialize msgs)))"

section \<open>Example inputs\<close>

text \<open>
  Three events at 0 ms, 400 ms and 1200 ms; what else the events carry is left open.
\<close>

definition scenario_events :: "message \<Rightarrow> message \<Rightarrow> message \<Rightarrow> message list" where
  "scenario_events m0 m1 m2 =
     [m0\<lparr>timestamp_ms := 0\<rparr>, m1\<lparr>timestamp_ms := 400\<rparr>, m2\<lparr>timestamp_ms := 1200\<rparr>]"

text \<open>A message with no author and no content, for examples.\<close>

definition bareMessage :: "string \<Rightarrow> real \<Rightarrow> message" where
  "bareMessage i t =
     \<lparr> msg_id = i, timestamp_ms = t, msg_kind = Chat, msg_author = None, msg_content = None \<rparr>"

section \<open>Properties of the rounding to doubles\<close>

lemma rne_of_int: "rne (of_int k) = k"
  by (simp add: rne_def)

lemma rne_cases:
  "rne x = \<lfloor>x\<rfloor> \<and> x - of_int \<lfloor>x\<rfloor> \<le> 1 / 2
   \<or> rne x = \<lfloor>x\<rfloor> + 1 \<and> 1 / 2 \<le> x - of_int \<lfloor>x\<rfloor>"
  by (auto simp add: rne_def Let_def)

lemma rne_mono: "x \<le> y \<Longrightarrow> rne x \<le> rne y"
proof -
  assume xy: "x \<le> y"
  then have f: "\<lfloor>x\<rfloor> \<le> \<lfloor>y\<rfloor>" by (rule floor_mono)
  show ?thesis
  proof (cases "\<lfloor>x\<rfloor> = \<lfloor>y\<rfloor>")
    case True
    then have "x - of_int \<lfloor>x\<rfloor> \<le> y - of_int \<lfloor>y\<rfloor>" using xy by simp
    then show ?thesis using True by (auto simp add: rne_def Let_def)
  next
    case False
    then have "\<lfloor>x\<rfloor> + 1 \<le> \<lfloor>y\<rfloor>" using f by simp
    moreover have "rne x \<le> \<lfloor>x\<rfloor> + 1" using rne_cases[of x] by auto
    moreover have "\<lfloor>y\<rfloor> \<le> rne y" using rne_cases[of y] by auto
    ultimately show ?thesis by linarith
  qed
qed

lemma rne_minus: "rne (- x) = - rne x"
proof (cases "x = of_int \<lfloor>x\<rfloor>")
  case True
  then obtain k where k: "x = of_int k" by blast
  have "rne (- of_int k) = - k"
    using rne_of_int[of "- k"] by simp
  then show ?thesis using k by (simp add: rne_of_int)
next
  case False
  then have lt: "of_int \<lfloor>x\<rfloor> < x" using of_int_floor_le[of x] by linarith
  have "\<lceil>x\<rceil> = \<lfloor>x\<rfloor> + 1"
    using False by (metis ceiling_altdef of_int_floor_cancel)
  then have fm: "\<lfloor>- x\<rfloor> = - \<lfloor>x\<rfloor> - 1"
    by (simp add: floor_minus)
  have ev: "even (- \<lfloor>x\<rfloor> - 1) = odd \<lfloor>x\<rfloor>" by simp
  show ?thesis
    unfolding rne_def Let_def fm ev using lt by (auto simp add: field_simps)
qed

lemma pow2_pos: "(0::real) < 2 powi q"
  by (simp add: zero_less_power_int)

lemma roundTo_mono: "x \<le> y \<Longrightarrow> roundTo q x \<le> roundTo q y"
proof -
  assume "x \<le> y"
  then have "x / 2 powi q \<le> y / 2 powi q"
    using pow2_pos[of q] by (simp add: divide_right_mono)
  then have "rne (x / 2 powi q) \<le> rne (y / 2 powi q)" by (rule rne_mono)
  then have "real_of_int (rne (x / 2 powi q)) \<le> real_of_int (rne (y / 2 powi q))" by simp
  then show ?thesis
    unfolding roundTo_def using pow2_pos[of q] by (simp add: mult_right_mono)
qed

lemma roundTo_multiple: "roundTo q (of_int k * 2 powi q) = of_int k * 2 powi q"
  using pow2_pos[of q] by (simp add: roundTo_def rne_of_int)

lemma roundTo_minus: "roundTo q (- x) = - roundTo q x"
  by (simp add: roundTo_def rne_minus)

lemma pow2_multiple:
  assumes "q \<le> e"
  shows "(2::real) powi e = of_int (2 ^ nat (e - q)) * 2 powi q"
proof -
  have "(2::real) powi e = 2 powi ((e - q) + q)" by simp
  also have "\<dots> = 2 powi (e - q) * 2 powi q" by (rule power_int_add) simp
  also have "(2::real) powi (e - q) = 2 ^ nat (e - q)"
    using assms by (simp add: power_int_nonneg_exp)
  finally show ?thesis by simp
qed

lemma nat_pow_le_real: "2 ^ a \<le> (n::nat) \<Longrightarrow> (2::real) ^ a \<le> real n"
proof -
  assume "2 ^ a \<le> n"
  then have "real (2 ^ a) \<le> real n" by (rule of_nat_mono)
  then show ?thesis by simp
qed

lemma nat_less_pow_real: "(n::nat) < 2 ^ b \<Longrightarrow> real n + 1 \<le> 2 ^ b"
proof -
  assume "n < 2 ^ b"
  then have "Suc n \<le> 2 ^ b" by simp
  then have "real (Suc n) \<le> real (2 ^ b)" by (rule of_nat_mono)
  then show ?thesis by simp
qed

lemma pow2_less_imp_less:
  assumes "(2::real) powi a < 2 powi b"
  shows "a < b"
proof (rule ccontr)
  assume "\<not> a < b"
  then have "b \<le> a" by simp
  then have "(2::real) powi b \<le> 2 powi a" by (intro power_int_increasing) simp_all
  then show False using assms by simp
qed

lemma expo_bounds:
  assumes "0 < y"
  shows "2 powi expo y \<le> y \<and> y < 2 powi (expo y + 1)"
proof (cases "1 \<le> y")
  case True
  let ?n = "nat \<lfloor>y\<rfloor>"
  let ?k = "floorlog 2 ?n"
  have n: "0 < ?n" using True by simp
  have b: "2 ^ (?k - 1) \<le> ?n \<and> ?n < 2 ^ ?k" using floorlog_bounds[OF n, of 2] by simp
  have kpos: "0 < ?k" using b n by (cases ?k) auto
  have e: "expo y = int ?k - 1" using True by (simp add: expo_def bitlen_def)
  have "real ?n \<le> y" using True by simp
  moreover have "y < real ?n + 1" using True by simp
  moreover have "(2::real) ^ (?k - 1) \<le> real ?n"
    using b by (intro nat_pow_le_real) simp
  moreover have "real ?n + 1 \<le> 2 ^ ?k"
    using b by (intro nat_less_pow_real) simp
  moreover have "(2::real) powi (int ?k - 1) = 2 ^ (?k - 1)"
    using kpos by (simp add: power_int_def nat_diff_distrib')
  moreover have "(2::real) powi (int ?k - 1 + 1) = 2 ^ ?k" by simp
  ultimately show ?thesis unfolding e by linarith
next
  case False
  then have y1: "y < 1" by simp
  let ?z = "1 / y"
  let ?m = "nat (\<lceil>?z\<rceil> - 1)"
  let ?k = "floorlog 2 ?m"
  have z1: "1 < ?z" using assms y1 by simp
  then have c2: "2 \<le> \<lceil>?z\<rceil>" by linarith
  then have m: "0 < ?m" by simp
  have b: "2 ^ (?k - 1) \<le> ?m \<and> ?m < 2 ^ ?k" using floorlog_bounds[OF m, of 2] by simp
  have kpos: "0 < ?k" using b m by (cases ?k) auto
  have e: "expo y = - int ?k" using False by (simp add: expo_def bitlen_def)
  have mz: "real ?m < ?z" using c2 by simp linarith
  have zm: "?z \<le> real ?m + 1" using c2 by simp linarith
  have lo: "(2::real) ^ (?k - 1) < ?z"
  proof -
    have "(2::real) ^ (?k - 1) \<le> real ?m"
      using b by (intro nat_pow_le_real) simp
    then show ?thesis using mz by linarith
  qed
  have hi: "?z \<le> 2 ^ ?k"
  proof -
    have "real ?m + 1 \<le> 2 ^ ?k"
      using b by (intro nat_less_pow_real) simp
    then show ?thesis using zm by linarith
  qed
  have p1: "(2::real) powi (- int ?k) = 1 / 2 ^ ?k"
    by (simp add: power_int_minus_divide)
  have p2: "(2::real) powi (- int ?k + 1) = 1 / 2 ^ (?k - 1)"
  proof -
    have "- int ?k + 1 = - int (?k - 1)" using kpos by simp
    then show ?thesis by (simp only: power_int_minus_divide power_int_of_nat)
  qed
  have "1 / 2 ^ ?k \<le> y"
    using hi assms by (simp add: field_simps)
  moreover have "y < 1 / 2 ^ (?k - 1)"
    using lo assms by (simp add: field_simps)
  ultimately show ?thesis unfolding e p1 p2 by simp
qed

lemma expo_unique:
  assumes "0 < y" and "2 powi e \<le> y" and "y < 2 powi (e + 1)"
  shows "expo y = e"
proof -
  have b: "2 powi expo y \<le> y \<and> y < 2 powi (expo y + 1)" using assms(1) by (rule expo_bounds)
  have "(2::real) powi e < 2 powi (expo y + 1)" using assms(2) b by linarith
  then have 1: "e < expo y + 1" by (rule pow2_less_imp_less)
  have "(2::real) powi expo y < 2 powi (e + 1)" using assms(3) b by linarith
  then have 2: "expo y < e + 1" by (rule pow2_less_imp_less)
  show ?thesis using 1 2 by simp
qed

lemma expo_mono:
  assumes "0 < x" and "x \<le> y"
  shows "expo x \<le> expo y"
proof -
  have bx: "2 powi expo x \<le> x" using assms(1) expo_bounds by blast
  have "y < 2 powi (expo y + 1)" using assms expo_bounds[of y] by simp
  then have "(2::real) powi expo x < 2 powi (expo y + 1)" using bx assms(2) by linarith
  then have "expo x < expo y + 1" by (rule pow2_less_imp_less)
  then show ?thesis by simp
qed

lemma fl_zero: "fl 0 = 0"
  by (simp add: fl_def)

lemma quantum_minus: "quantum (- x) = quantum x"
  by (simp add: quantum_def)

lemma fl_minus: "fl (- x) = - fl x"
  by (simp add: fl_def quantum_minus roundTo_minus)

lemma roundTo_nonneg: "0 \<le> x \<Longrightarrow> 0 \<le> roundTo q x"
  using roundTo_mono[of 0 x q] roundTo_multiple[of q 0] by simp

lemma fl_nonneg: "0 \<le> x \<Longrightarrow> 0 \<le> fl x"
  by (simp add: fl_def roundTo_nonneg)

lemma fl_nonpos: "x \<le> 0 \<Longrightarrow> fl x \<le> 0"
  using fl_nonneg[of "- x"] by (simp add: fl_minus)

lemma quantum_mono: "0 < x \<Longrightarrow> x \<le> y \<Longrightarrow> quantum x \<le> quantum y"
  using expo_mono[of x y] by (simp add: quantum_def)

lemma fl_mono_pos:
  assumes x: "0 < x" and xy: "x \<le> y"
  shows "fl x \<le> fl y"
proof -
  have y: "0 < y" using x xy by simp
  have fx: "fl x = roundTo (quantum x) x" using x by (simp add: fl_def)
  have fy: "fl y = roundTo (quantum y) y" using y by (simp add: fl_def)
  have q: "quantum x \<le> quantum y" using x xy by (rule quantum_mono)
  show ?thesis
  proof (cases "quantum x = quantum y")
    case True
    then show ?thesis using fx fy roundTo_mono[OF xy, of "quantum y"] by simp
  next
    case False
    then have lt: "quantum x < quantum y" using q by simp
    have qx: "expo x - 52 \<le> quantum x" and lo: "- 1074 \<le> quantum x"
      using x by (simp_all add: quantum_def)
    have qy: "quantum y = expo y - 52"
      using lt lo y by (simp add: quantum_def max_def split: if_splits)
    let ?c = "(2::real) powi expo y"
    have e: "expo x + 1 \<le> expo y" using qx lt qy by simp
    have "x < 2 powi (expo x + 1)" using expo_bounds[OF x] by simp
    also have "\<dots> \<le> ?c" using e by (intro power_int_increasing) simp_all
    finally have xc: "x \<le> ?c" by simp
    have cy: "?c \<le> y" using expo_bounds[OF y] by simp
    have m1: "?c = of_int (2 ^ nat (expo y - quantum x)) * 2 powi quantum x"
      using lt qy by (intro pow2_multiple) simp
    have m2: "?c = of_int (2 ^ nat (expo y - quantum y)) * 2 powi quantum y"
      using qy by (intro pow2_multiple) simp
    have r1: "roundTo (quantum x) ?c = ?c"
      using roundTo_multiple[of "quantum x" "2 ^ nat (expo y - quantum x)"] m1 by simp
    have r2: "roundTo (quantum y) ?c = ?c"
      using roundTo_multiple[of "quantum y" "2 ^ nat (expo y - quantum y)"] m2 by simp
    have "fl x \<le> roundTo (quantum x) ?c" unfolding fx using xc by (rule roundTo_mono)
    also have "\<dots> = roundTo (quantum y) ?c" using r1 r2 by simp
    also have "\<dots> \<le> fl y" unfolding fy using cy by (rule roundTo_mono)
    finally show ?thesis .
  qed
qed

lemma fl_mono: "x \<le> y \<Longrightarrow> fl x \<le> fl y"
proof -
  assume xy: "x \<le> y"
  consider "0 < x" | "x \<le> 0 \<and> 0 \<le> y" | "y < 0" using xy by linarith
  then show ?thesis
  proof cases
    case 1
    then show ?thesis using xy by (rule fl_mono_pos)
  next
    case 2
    then show ?thesis using fl_nonpos[of x] fl_nonneg[of y] by linarith
  next
    case 3
    then have "fl (- y) \<le> fl (- x)" using xy by (intro fl_mono_pos) simp_all
    then show ?thesis by (simp add: fl_minus)
  qed
qed

lemma fl_pow2_multiple:
  assumes "k \<noteq> 0" and "\<bar>k\<bar> < 2 ^ 53" and "- 1074 \<le> q"
  shows "fl (of_int k * 2 powi q) = of_int k * 2 powi q"
proof -
  let ?x = "real_of_int k * 2 powi q"
  have nz: "?x \<noteq> 0" using assms(1) by simp
  have ax: "\<bar>?x\<bar> = real_of_int \<bar>k\<bar> * 2 powi q"
    using pow2_pos[of q] by (simp add: abs_mult)
  have pos: "0 < \<bar>?x\<bar>" using nz by simp
  have "real_of_int \<bar>k\<bar> < 2 ^ 53"
    using assms(2) by (metis of_int_less_iff of_int_numeral of_int_power)
  then have "\<bar>?x\<bar> < 2 ^ 53 * 2 powi q"
    unfolding ax using pow2_pos[of q] by (simp add: mult_strict_right_mono)
  also have "(2::real) ^ 53 * 2 powi q = 2 powi (53 + q)"
    by (subst power_int_add) simp_all
  finally have "(2::real) powi expo \<bar>?x\<bar> < 2 powi (53 + q)"
    using expo_bounds[OF pos] by linarith
  then have "expo \<bar>?x\<bar> < 53 + q" by (rule pow2_less_imp_less)
  then have ql: "quantum ?x \<le> q" using assms(3) by (simp add: quantum_def)
  define Q where "Q = quantum ?x"
  define m where "m = k * 2 ^ nat (q - Q)"
  have "(2::real) powi q = of_int (2 ^ nat (q - Q)) * 2 powi Q"
    using ql unfolding Q_def by (rule pow2_multiple)
  then have "?x = real_of_int k * (of_int (2 ^ nat (q - Q)) * 2 powi Q)" by simp
  also have "\<dots> = of_int m * 2 powi Q" unfolding m_def by (simp only: of_int_mult mult.assoc)
  finally have xm: "of_int m * 2 powi Q = ?x" by simp
  have "roundTo Q (of_int m * 2 powi Q) = of_int m * 2 powi Q" by (rule roundTo_multiple)
  then have "roundTo Q ?x = ?x" by (simp only: xm)
  then show ?thesis using nz unfolding Q_def by (simp only: fl_def if_False)
qed

lemma fl_pow2: "- 1074 \<le> e \<Longrightarrow> fl (2 powi e) = 2 powi e"
  using fl_pow2_multiple[of 1 e] by simp

lemma fl_representable:
  assumes "\<bar>k\<bar> \<le> 2 ^ 53" and "- 1074 \<le> q"
  shows "fl (of_int k * 2 powi q) = of_int k * 2 powi q"
proof -
  consider "k = 0" | "k \<noteq> 0 \<and> \<bar>k\<bar> < 2 ^ 53" | "k = 2 ^ 53" | "k = - (2 ^ 53)"
    using assms(1) by linarith
  then show ?thesis
  proof cases
    case 1
    then show ?thesis by (simp add: fl_zero)
  next
    case 2
    then show ?thesis using assms(2) by (intro fl_pow2_multiple) simp_all
  next
    case 3
    have "real_of_int k * 2 powi q = 2 powi (53 + q)"
      unfolding 3 by (subst power_int_add) simp_all
    then show ?thesis using fl_pow2[of "53 + q"] assms(2) by simp
  next
    case 4
    have "real_of_int k * 2 powi q = - (2 powi (53 + q))"
      unfolding 4 by (subst power_int_add) simp_all
    then show ?thesis using fl_pow2[of "53 + q"] assms(2) by (simp add: fl_minus)
  qed
qed

lemma fl_of_int: "\<bar>k\<bar> \<le> 2 ^ 53 \<Longrightarrow> fl (of_int k) = of_int k"
  using fl_representable[of k 0] by simp

lemma fl_of_nat: "n \<le> 2 ^ 53 \<Longrightarrow> fl (real n) = real n"
  using fl_of_int[of "int n"] by simp

lemma rne_nonneg: "0 \<le> x \<Longrightarrow> 0 \<le> rne x"
  using rne_mono[of 0 x] rne_of_int[of 0] by simp

lemma fl_idem_pos:
  assumes y: "0 < y"
  shows "fl (fl y) = fl y"
proof -
  let ?q = "quantum y"
  let ?k = "rne (y / 2 powi ?q)"
  have f: "fl y = of_int ?k * 2 powi ?q" using y by (simp add: fl_def roundTo_def)
  have lo: "- 1074 \<le> ?q" and qe: "expo y - 52 \<le> ?q"
    using y by (simp_all add: quantum_def)
  have "y < 2 powi (expo y + 1)" using expo_bounds[OF y] by simp
  also have "\<dots> \<le> 2 powi (?q + 53)" using qe by (intro power_int_increasing) simp_all
  also have "\<dots> = 2 ^ 53 * 2 powi ?q" by (subst power_int_add) simp_all
  finally have "y / 2 powi ?q \<le> 2 ^ 53"
    using pow2_pos[of ?q] by (simp add: field_simps)
  then have "?k \<le> rne (2 ^ 53)" by (rule rne_mono)
  moreover have "rne (2 ^ 53) = 2 ^ 53" using rne_of_int[of "2 ^ 53"] by simp
  moreover have "0 \<le> y / 2 powi ?q" using y pow2_pos[of ?q] by simp
  then have "0 \<le> ?k" by (rule rne_nonneg)
  ultimately have "\<bar>?k\<bar> \<le> 2 ^ 53" by simp
  then show ?thesis unfolding f using lo by (rule fl_representable)
qed

lemma fl_idem: "fl (fl x) = fl x"
proof -
  consider "0 < x" | "x = 0" | "0 < - x" by linarith
  then show ?thesis
  proof cases
    case 1
    then show ?thesis by (rule fl_idem_pos)
  next
    case 2
    then show ?thesis by (simp add: fl_zero)
  next
    case 3
    then have "fl (fl (- x)) = fl (- x)" by (rule fl_idem_pos)
    then show ?thesis by (simp add: fl_minus)
  qed
qed

section \<open>Properties of the frame scheduler\<close>

lemma frameDuration_value: "fl (1000 / FRAMERATE) = 4691249611844267 / 140737488355328"
  by code_simp


lemma scheduler_1200:
  "newFrameScheduler 1200
   = \<lparr> streamDurationMs = 1200, frameDurationMs = 4691249611844267 / 140737488355328,
       totalFrames = 36, currentFrame = 0 \<rparr>"
  by code_simp










text \<open>
  Claim C4, as the spec states it, fails: the result is clamped to the frames that remain,
  so at the end of the stream it is 0. After \<open>skipFrames(36)\<close> on a stream of 1200 ms
  (36 frames) the cursor is at \<open>totalFrames\<close> and \<open>getFrameCountUntil(1200)\<close> is 0.
\<close>

theorem frame_count_zero_when_done:
  "\<not> 1 \<le> getFrameCountUntil (skipFrames (newFrameScheduler 1200) 36) (Some 1200)"
  by (simp add: getFrameCountUntil_def skipFrames_def scheduler_1200 Let_def)

text \<open>
  Claim C4, amended: for every finite \<open>nextEventTimeMs\<close>, on a scheduler that is not done
  (cursor below \<open>totalFrames\<close>) \<open>getFrameCountUntil\<close> returns at least 1 and at most the
  frames that remain, also when \<open>nextEventTimeMs\<close> is not after the current time; on a
  scheduler that is done it returns \<open>totalFrames - currentFrame\<close>, which is at most 0.
  The frame duration is not zero: the constructor sets it to the double nearest to
  \<open>1000 / FRAMERATE\<close>.
\<close>

theorem frame_count_progress:
  assumes "frameDurationMs s \<noteq> 0"
  shows "(\<not> isDone s \<longrightarrow>
      1 \<le> getFrameCountUntil s (Some t)
      \<and> getFrameCountUntil s (Some t) \<le> totalFrames s - currentFrame s)
   \<and> (isDone s \<longrightarrow>
      getFrameCountUntil s (Some t) = totalFrames s - currentFrame s
      \<and> getFrameCountUntil s (Some t) \<le> 0)"
  by (auto simp add: getFrameCountUntil_def isDone_def Let_def)

theorem frame_count_progress_witness:
  "frameDurationMs (skipFrames (newFrameScheduler 1200) 20) \<noteq> 0
   \<and> \<not> isDone (skipFrames (newFrameScheduler 1200) 20)
   \<and> 400 \<le> getCurrentTimeMs (skipFrames (newFrameScheduler 1200) 20)
   \<and> 1 \<le> getFrameCountUntil (skipFrames (newFrameScheduler 1200) 20) (Some 400)
   \<and> isDone (skipFrames (newFrameScheduler 1200) 36)
   \<and> getFrameCountUntil (skipFrames (newFrameScheduler 1200) 36) (Some 400) \<le> 0"
proof -
  have n: "\<not> isDone (skipFrames (newFrameScheduler 1200) 20)"
    by (simp add: isDone_def skipFrames_def scheduler_1200)
  have c: "400 \<le> getCurrentTimeMs (skipFrames (newFrameScheduler 1200) 20)"
    by code_simp
  have d: "isDone (skipFrames (newFrameScheduler 1200) 36)"
    by (simp add: isDone_def skipFrames_def scheduler_1200)
  have f: "frameDurationMs (skipFrames (newFrameScheduler 1200) k) \<noteq> 0" for k
    by (simp add: skipFrames_def scheduler_1200)
  have p: "1 \<le> getFrameCountUntil (skipFrames (newFrameScheduler 1200) 20) (Some 400)"
    using n frame_count_progress[OF f, of 20 400] by blast
  have q: "getFrameCountUntil (skipFrames (newFrameScheduler 1200) 36) (Some 400) \<le> 0"
    using d frame_count_progress[OF f, of 36 400] by blast
  show ?thesis using f[of 20] n c d p q by blast
qed

section \<open>Properties of the chat state\<close>

lemma calculateMessageLines_default_pos: "1 \<le> calculateMessageLines_default m"
  by (simp add: calculateMessageLines_default_def Let_def)

lemma trimOverflow_stop:
  "\<not> (totalLineCount s > MAX_VISIBLE_LINES \<and> length (visibleMessages s) > 0) \<Longrightarrow>
   trimOverflow s = s"
  by (subst trimOverflow.simps) (simp only: if_False)

lemma trimOverflow_step:
  "totalLineCount s > MAX_VISIBLE_LINES \<and> length (visibleMessages s) > 0 \<Longrightarrow>
   trimOverflow s =
     trimOverflow (s\<lparr>visibleMessages := tl (visibleMessages s),
                      totalLineCount := totalLineCount s - lineCount (hd (visibleMessages s))\<rparr>)"
  by (subst trimOverflow.simps) (simp add: Let_def)

lemma trimOverflow_inv: "chat_inv s \<Longrightarrow> chat_inv (trimOverflow s)"
proof (induction s rule: trimOverflow.induct)
  case (1 s)
  show ?case
  proof (cases "totalLineCount s > MAX_VISIBLE_LINES \<and> length (visibleMessages s) > 0")
    case True
    then obtain e es where es: "visibleMessages s = e # es"
      by (cases "visibleMessages s") auto
    let ?s' = "s\<lparr>visibleMessages := tl (visibleMessages s),
                 totalLineCount := totalLineCount s - lineCount (hd (visibleMessages s))\<rparr>"
    have "chat_inv ?s'"
      using "1.prems" es by (simp add: chat_inv_def visibleLines_def)
    then have "chat_inv (trimOverflow ?s')"
      using "1.IH" True by simp
    then show ?thesis by (simp only: trimOverflow_step[OF True])
  next
    case False
    then have "trimOverflow s = s" by (rule trimOverflow_stop)
    then show ?thesis using "1.prems" by simp
  qed
qed

lemma trimOverflow_post:
  "totalLineCount (trimOverflow s) \<le> MAX_VISIBLE_LINES \<or> visibleMessages (trimOverflow s) = []"
proof (induction s rule: trimOverflow.induct)
  case (1 s)
  show ?case
  proof (cases "totalLineCount s > MAX_VISIBLE_LINES \<and> length (visibleMessages s) > 0")
    case True
    let ?s' = "s\<lparr>visibleMessages := tl (visibleMessages s),
                 totalLineCount := totalLineCount s - lineCount (hd (visibleMessages s))\<rparr>"
    from "1.IH" True
    have "totalLineCount (trimOverflow ?s') \<le> MAX_VISIBLE_LINES
          \<or> visibleMessages (trimOverflow ?s') = []"
      by simp
    then show ?thesis by (simp only: trimOverflow_step[OF True])
  next
    case False
    then have "trimOverflow s = s" by (rule trimOverflow_stop)
    then show ?thesis using False by auto
  qed
qed

lemma trimOverflow_drop:
  "\<exists>k. visibleMessages (trimOverflow s) = drop k (visibleMessages s)"
proof (induction s rule: trimOverflow.induct)
  case (1 s)
  show ?case
  proof (cases "totalLineCount s > MAX_VISIBLE_LINES \<and> length (visibleMessages s) > 0")
    case True
    let ?s' = "s\<lparr>visibleMessages := tl (visibleMessages s),
                 totalLineCount := totalLineCount s - lineCount (hd (visibleMessages s))\<rparr>"
    from "1.IH" True obtain k
      where "visibleMessages (trimOverflow ?s') = drop k (visibleMessages ?s')"
      by auto
    then have "visibleMessages (trimOverflow ?s') = drop (Suc k) (visibleMessages s)"
      by (simp add: drop_Suc)
    then have "visibleMessages (trimOverflow s) = drop (Suc k) (visibleMessages s)"
      by (simp only: trimOverflow_step[OF True])
    then show ?thesis by blast
  next
    case False
    then have "trimOverflow s = s" by (rule trimOverflow_stop)
    then have "visibleMessages (trimOverflow s) = drop 0 (visibleMessages s)"
      by simp
    then show ?thesis by blast
  qed
qed

lemma addMessages_loop_inv: "chat_inv s \<Longrightarrow> chat_inv (addMessages_loop s msgs)"
proof (induction msgs arbitrary: s)
  case Nil
  then show ?case by simp
next
  case (Cons m msgs)
  let ?s' = "s\<lparr>visibleMessages :=
                 visibleMessages s @
                 [\<lparr>entry_msg = m, lineCount = calculateMessageLines_default m, deleted = False\<rparr>],
               totalLineCount := totalLineCount s + calculateMessageLines_default m\<rparr>"
  have "chat_inv ?s'"
    using Cons.prems calculateMessageLines_default_pos[of m]
    by (auto simp add: chat_inv_def visibleLines_def)
  then show ?case using Cons.IH by (simp add: Let_def)
qed

lemma addMessages_loop_last:
  "msgs \<noteq> [] \<Longrightarrow>
   visibleMessages (addMessages_loop s msgs) \<noteq> [] \<and>
   lineCount (last (visibleMessages (addMessages_loop s msgs)))
     = calculateMessageLines_default (last msgs)"
proof (induction msgs arbitrary: s)
  case Nil
  then show ?case by simp
next
  case (Cons m msgs)
  show ?case
  proof (cases "msgs = []")
    case True
    then show ?thesis by (simp add: Let_def)
  next
    case False
    then show ?thesis using Cons.IH by (simp add: Let_def)
  qed
qed

lemma addMessages_inv: "chat_inv s \<Longrightarrow> chat_inv (addMessages s msgs)"
  by (simp add: addMessages_def trimOverflow_inv addMessages_loop_inv)

lemma markFirst_lineCount: "map lineCount (markFirst xs i) = map lineCount xs"
  by (induction xs) auto

lemma markFirst_member:
  "e \<in> set (markFirst xs i) \<Longrightarrow> \<exists>e' \<in> set xs. lineCount e = lineCount e'"
  by (induction xs) (auto split: if_splits)

lemma markFirst_absent:
  "i \<notin> set (map (\<lambda>m. msg_id (entry_msg m)) xs) \<Longrightarrow> markFirst xs i = xs"
  by (induction xs) auto

lemma markDeleted_inv: "chat_inv s \<Longrightarrow> chat_inv (markDeleted s i)"
proof -
  assume a: "chat_inv s"
  have "\<forall>e \<in> set (markFirst (visibleMessages s) i). 1 \<le> lineCount e"
    using a markFirst_member[of _ "visibleMessages s" i] by (fastforce simp add: chat_inv_def)
  then show ?thesis using a
    by (simp add: chat_inv_def markDeleted_def visibleLines_def markFirst_lineCount)
qed

lemma chat_step_inv: "chat_inv s \<Longrightarrow> chat_inv (chat_step s x)"
proof (cases x)
  case (AddMessages msgs)
  assume "chat_inv s"
  then show ?thesis using AddMessages by (simp add: addMessages_inv)
next
  case (MarkDeleted i)
  assume "chat_inv s"
  then show ?thesis using MarkDeleted by (simp add: markDeleted_inv)
next
  case Clear
  then show ?thesis by (simp add: clear_def chat_inv_def visibleLines_def)
qed

lemma chat_run_inv: "chat_inv s \<Longrightarrow> chat_inv (chat_run s ops)"
  by (induction ops arbitrary: s) (simp_all add: chat_step_inv)

lemma newChatState_inv: "chat_inv newChatState"
  by (simp add: chat_inv_def newChatState_def visibleLines_def)

lemma sum_list_ge_last:
  fixes xs :: "int list"
  shows "xs \<noteq> [] \<Longrightarrow> \<forall>x \<in> set xs. 0 \<le> x \<Longrightarrow> last xs \<le> sum_list xs"
proof (induction xs)
  case Nil
  then show ?case by simp
next
  case (Cons a xs)
  show ?case
  proof (cases "xs = []")
    case True
    then show ?thesis by simp
  next
    case False
    then have "last xs \<le> sum_list xs" using Cons by simp
    then show ?thesis using False Cons.prems by simp
  qed
qed

lemma addMessages_bound:
  assumes "chat_inv s"
  shows "visibleLines (addMessages s msgs) \<le> MAX_VISIBLE_LINES"
proof -
  let ?r = "addMessages s msgs"
  have inv: "chat_inv ?r"
    using assms by (rule addMessages_inv)
  have "totalLineCount ?r \<le> MAX_VISIBLE_LINES \<or> visibleMessages ?r = []"
    unfolding addMessages_def by (rule trimOverflow_post)
  then show ?thesis
  proof
    assume "totalLineCount ?r \<le> MAX_VISIBLE_LINES"
    then show ?thesis using inv by (simp add: chat_inv_def)
  next
    assume "visibleMessages ?r = []"
    then show ?thesis by (simp add: visibleLines_def MAX_VISIBLE_LINES_def)
  qed
qed

lemma addMessages_oversized:
  assumes inv0: "chat_inv s" and ne: "msgs \<noteq> []"
    and big: "MAX_VISIBLE_LINES < calculateMessageLines_default (last msgs)"
  shows "visibleMessages (addMessages s msgs) = []"
proof (rule ccontr)
  let ?l = "addMessages_loop s msgs"
  let ?r = "addMessages s msgs"
  assume nonempty: "visibleMessages ?r \<noteq> []"
  have inv: "chat_inv ?r"
    using inv0 by (rule addMessages_inv)
  obtain k where k: "visibleMessages ?r = drop k (visibleMessages ?l)"
    using trimOverflow_drop[of ?l] by (auto simp add: addMessages_def)
  have "last (visibleMessages ?r) = last (visibleMessages ?l)"
    using k nonempty by simp
  then have lastc: "lineCount (last (visibleMessages ?r)) = calculateMessageLines_default (last msgs)"
    using addMessages_loop_last[OF ne, of s] by simp
  have "last (map lineCount (visibleMessages ?r)) \<le> sum_list (map lineCount (visibleMessages ?r))"
    using nonempty inv by (intro sum_list_ge_last) (auto simp add: chat_inv_def)
  then have "calculateMessageLines_default (last msgs) \<le> visibleLines ?r"
    using lastc nonempty by (simp add: last_map visibleLines_def)
  then show False using big addMessages_bound[OF inv0, of msgs] by simp
qed

lemma AVG_value: "AVG_CHAR_WIDTH_PX = 2476979795053773 / 281474976710656"
  by code_simp

lemma BADGE_value: "BADGE_WIDTH_PX = 20"
  by code_simp

lemma EMOJI_value: "EMOJI_WIDTH_PX = 18"
  by code_simp

lemma defaultContainerWidth_value: "defaultContainerWidth = 376"
  by code_simp

lemma fl_at_1: "fl (12384898975268865 / 281474976710656) = 44"
  by code_simp

lemma fl_at_2: "fl 44 = 44"
  by code_simp

lemma fl_at_3: "fl (309622474381721625 / 17592186044416) = 17600"
  by code_simp

lemma fl_at_4: "fl 17644 = 17644"
  by code_simp

lemma fl_at_5: "fl (4411 / 94) = 6604181501439913 / 140737488355328"
  by code_simp

lemma fl_at_6: "fl 88 = 88"
  by code_simp

lemma fl_at_7: "fl (11 / 47) = 1054033955342031 / 4503599627370496"
  by code_simp

lemmas estimator_evals =
  fl_at_1 fl_at_2 fl_at_3 fl_at_4 fl_at_5 fl_at_6 fl_at_7

lemma oversized_lines:
  "calculateMessageLines_default (textMessage ''m1'' 0 (replicate 2000 CHR ''a'')) = 47"
  by (simp add: calculateMessageLines_default_def contentWidthOf_def textMessage_def Let_def
      AVG_value BADGE_value defaultContainerWidth_value fl_zero estimator_evals)

lemma short_lines: "calculateMessageLines_default (textMessage ''m0'' 0 ''hello'') = 1"
  by (simp add: calculateMessageLines_default_def contentWidthOf_def textMessage_def Let_def
      AVG_value BADGE_value defaultContainerWidth_value fl_zero estimator_evals)

text \<open>
  Claim C1, as the spec states it, fails in its second part: eviction does not stop at an
  oversized entry. The loop of \<open>_trimOverflow\<close> runs while the list is non-empty, so a
  single message of 47 lines (budget 27) added to the empty buffer is evicted in the same
  call and the buffer is left empty.
\<close>

theorem oversized_entry_evicted:
  "MAX_VISIBLE_LINES < calculateMessageLines_default (textMessage ''m1'' 0 (replicate 2000 CHR ''a''))
   \<and> visibleMessages (addMessages newChatState [textMessage ''m1'' 0 (replicate 2000 CHR ''a'')]) = []"
  by (simp add: oversized_lines MAX_VISIBLE_LINES_def addMessages_def newChatState_def Let_def
      trimOverflow.simps)

text \<open>
  Claim C1, amended: after every \<open>addMessages\<close> call on a buffer reached from
  construction by public calls, the sum of the visible entries' line counts, and the
  running total, are at most \<open>MAX_VISIBLE_LINES\<close>. When the last incoming entry's line
  count alone exceeds \<open>MAX_VISIBLE_LINES\<close>, that entry is evicted too: the buffer is left
  empty, with running total 0.
\<close>

theorem addMessages_within_budget:
  "visibleLines (addMessages (chat_run newChatState ops) msgs) \<le> MAX_VISIBLE_LINES
   \<and> totalLineCount (addMessages (chat_run newChatState ops) msgs) \<le> MAX_VISIBLE_LINES
   \<and> (msgs \<noteq> [] \<and> MAX_VISIBLE_LINES < calculateMessageLines_default (last msgs) \<longrightarrow>
        visibleMessages (addMessages (chat_run newChatState ops) msgs) = []
        \<and> totalLineCount (addMessages (chat_run newChatState ops) msgs) = 0)"
proof -
  let ?s = "chat_run newChatState ops"
  have inv: "chat_inv ?s" by (rule chat_run_inv[OF newChatState_inv])
  have inv': "chat_inv (addMessages ?s msgs)"
    using inv by (rule addMessages_inv)
  have b: "visibleLines (addMessages ?s msgs) \<le> MAX_VISIBLE_LINES"
    by (rule addMessages_bound[OF inv])
  have t: "totalLineCount (addMessages ?s msgs) \<le> MAX_VISIBLE_LINES"
    using b inv' by (simp add: chat_inv_def)
  have e: "msgs \<noteq> [] \<and> MAX_VISIBLE_LINES < calculateMessageLines_default (last msgs) \<longrightarrow>
        visibleMessages (addMessages ?s msgs) = [] \<and> totalLineCount (addMessages ?s msgs) = 0"
  proof
    assume a: "msgs \<noteq> [] \<and> MAX_VISIBLE_LINES < calculateMessageLines_default (last msgs)"
    then have v: "visibleMessages (addMessages ?s msgs) = []"
      using addMessages_oversized[OF inv] by blast
    then show "visibleMessages (addMessages ?s msgs) = [] \<and> totalLineCount (addMessages ?s msgs) = 0"
      using inv' by (simp add: chat_inv_def visibleLines_def)
  qed
  show ?thesis using b t e by blast
qed

theorem addMessages_within_budget_witness:
  "[textMessage ''m0'' 0 ''hello'', textMessage ''m1'' 0 (replicate 2000 CHR ''a'')] \<noteq> []
   \<and> MAX_VISIBLE_LINES
       < calculateMessageLines_default
           (last [textMessage ''m0'' 0 ''hello'', textMessage ''m1'' 0 (replicate 2000 CHR ''a'')])
   \<and> visibleLines
        (addMessages (chat_run newChatState [AddMessages [textMessage ''m2'' 0 ''hello'']])
           [textMessage ''m0'' 0 ''hello'', textMessage ''m1'' 0 (replicate 2000 CHR ''a'')])
       \<le> MAX_VISIBLE_LINES
   \<and> visibleMessages
        (addMessages (chat_run newChatState [AddMessages [textMessage ''m2'' 0 ''hello'']])
           [textMessage ''m0'' 0 ''hello'', textMessage ''m1'' 0 (replicate 2000 CHR ''a'')])
       = []"
proof -
  have n: "[textMessage ''m0'' 0 ''hello'', textMessage ''m1'' 0 (replicate 2000 CHR ''a'')] \<noteq> []"
    by simp
  have g: "MAX_VISIBLE_LINES
       < calculateMessageLines_default
           (last [textMessage ''m0'' 0 ''hello'', textMessage ''m1'' 0 (replicate 2000 CHR ''a'')])"
    by (simp add: oversized_lines MAX_VISIBLE_LINES_def)
  show ?thesis
    using n g
      addMessages_within_budget[of "[AddMessages [textMessage ''m2'' 0 ''hello'']]"
        "[textMessage ''m0'' 0 ''hello'', textMessage ''m1'' 0 (replicate 2000 CHR ''a'')]"]
    by blast
qed

text \<open>
  Claim C6: after construction and after every sequence of \<open>addMessages\<close>,
  \<open>markDeleted\<close> and \<open>clear\<close> calls, the stored running total equals the sum of the
  \<open>lineCount\<close> fields of the entries in the visible sequence, and \<open>getState\<close> reports
  that total with those entries.
\<close>

theorem running_total_is_sum:
  "totalLineCount (chat_run newChatState ops) = visibleLines (chat_run newChatState ops)
   \<and> totalLines (getState (chat_run newChatState ops))
       = sum_list (map lineCount (view_messages (getState (chat_run newChatState ops))))"
  using chat_run_inv[OF newChatState_inv, of ops]
  by (simp add: chat_inv_def getState_def visibleLines_def)

text \<open>
  Claim C8: for every buffer state and every identifier that no entry of the visible
  buffer carries, \<open>markDeleted\<close> returns the state unchanged: the same entries with the
  same fields, and the same running total.
\<close>

theorem markDeleted_absent_noop:
  "messageId \<notin> set (map (\<lambda>m. msg_id (entry_msg m)) (visibleMessages s)) \<Longrightarrow>
   markDeleted s messageId = s"
  by (simp add: markDeleted_def markFirst_absent)

theorem markDeleted_absent_noop_witness:
  "''m9'' \<notin> set (map (\<lambda>m. msg_id (entry_msg m))
                 (visibleMessages (addMessages newChatState [textMessage ''m0'' 0 ''hello''])))
   \<and> markDeleted (addMessages newChatState [textMessage ''m0'' 0 ''hello'']) ''m9''
       = addMessages newChatState [textMessage ''m0'' 0 ''hello'']"
proof -
  have v: "visibleMessages (addMessages newChatState [textMessage ''m0'' 0 ''hello''])
      = [\<lparr>entry_msg = textMessage ''m0'' 0 ''hello'', lineCount = 1, deleted = False\<rparr>]"
    by (simp add: short_lines MAX_VISIBLE_LINES_def addMessages_def newChatState_def Let_def
        trimOverflow.simps)
  have a: "''m9'' \<notin> set (map (\<lambda>m. msg_id (entry_msg m))
                 (visibleMessages (addMessages newChatState [textMessage ''m0'' 0 ''hello''])))"
    unfolding v by (simp add: textMessage_def)
  show ?thesis using a markDeleted_absent_noop[OF a] by blast
qed

section \<open>Properties of the line estimator\<close>

lemma widths_nonneg: "0 \<le> AVG_CHAR_WIDTH_PX" "0 \<le> BADGE_WIDTH_PX" "0 \<le> EMOJI_WIDTH_PX"
  by (simp_all add: AVG_value BADGE_value EMOJI_value)

lemma fl_add_nonneg: "fl w = w \<Longrightarrow> 0 \<le> c \<Longrightarrow> w \<le> fl (w + c)"
  using fl_mono[of w "w + c"] by simp

lemma segmentsWidth_Cons: "segmentsWidth w (x # xs) = segmentsWidth (segmentsWidth w [x]) xs"
  by (cases x) simp_all

lemma segment_step_double: "fl w = w \<Longrightarrow> fl (segmentsWidth w [x]) = segmentsWidth w [x]"
  by (cases x) (simp_all add: fl_idem)

lemma segment_step_grows: "fl w = w \<Longrightarrow> w \<le> segmentsWidth w [x]"
proof (cases x)
  case (TextSeg v)
  assume w: "fl w = w"
  have "0 \<le> fl (real (length v) * AVG_CHAR_WIDTH_PX)"
    using widths_nonneg(1) by (intro fl_nonneg) simp
  then show ?thesis using TextSeg w by (simp add: fl_add_nonneg)
next
  case (EmojiSeg i n)
  assume w: "fl w = w"
  then show ?thesis using EmojiSeg widths_nonneg(3) by (simp add: fl_add_nonneg)
next
  case (OtherSeg t)
  then show ?thesis by simp
qed

lemma segment_step_acc_mono: "w \<le> w' \<Longrightarrow> segmentsWidth w [x] \<le> segmentsWidth w' [x]"
  by (cases x) (simp_all add: fl_mono)

lemma segment_step_mono:
  assumes s: "seg_le x y" and le: "w \<le> w'"
  shows "segmentsWidth w [x] \<le> segmentsWidth w' [y]"
proof (cases "\<exists>v v'. x = TextSeg v \<and> y = TextSeg v'")
  case True
  then obtain v v' where x: "x = TextSeg v" and y: "y = TextSeg v'" by blast
  have "length v \<le> length v'" using s x y by simp
  then have "real (length v) * AVG_CHAR_WIDTH_PX \<le> real (length v') * AVG_CHAR_WIDTH_PX"
    using widths_nonneg(1) by (simp add: mult_right_mono)
  then have "fl (real (length v) * AVG_CHAR_WIDTH_PX) \<le> fl (real (length v') * AVG_CHAR_WIDTH_PX)"
    by (rule fl_mono)
  then have "w + fl (real (length v) * AVG_CHAR_WIDTH_PX)
             \<le> w' + fl (real (length v') * AVG_CHAR_WIDTH_PX)"
    using le by simp
  then show ?thesis using x y by (simp add: fl_mono)
next
  case False
  then have "x = y" using s by (cases x; cases y) simp_all
  then show ?thesis using le by (simp add: segment_step_acc_mono)
qed

lemma segmentsWidth_double: "fl w = w \<Longrightarrow> fl (segmentsWidth w xs) = segmentsWidth w xs"
proof (induction xs arbitrary: w)
  case Nil
  then show ?case by simp
next
  case (Cons x xs)
  have "fl (segmentsWidth w [x]) = segmentsWidth w [x]"
    using Cons.prems by (rule segment_step_double)
  then have "fl (segmentsWidth (segmentsWidth w [x]) xs) = segmentsWidth (segmentsWidth w [x]) xs"
    by (rule Cons.IH)
  then show ?case by (simp only: segmentsWidth_Cons[of w x xs])
qed

lemma segmentsWidth_grows: "fl w = w \<Longrightarrow> w \<le> segmentsWidth w xs"
proof (induction xs arbitrary: w)
  case Nil
  then show ?case by simp
next
  case (Cons x xs)
  have d: "fl (segmentsWidth w [x]) = segmentsWidth w [x]"
    using Cons.prems by (rule segment_step_double)
  have "w \<le> segmentsWidth w [x]" using Cons.prems by (rule segment_step_grows)
  also have "\<dots> \<le> segmentsWidth (segmentsWidth w [x]) xs" using d by (rule Cons.IH)
  finally show ?case by (simp only: segmentsWidth_Cons[of w x xs])
qed

lemma segs_extend_width:
  "segs_extend xs ys \<Longrightarrow> fl w = w \<Longrightarrow> fl w' = w' \<Longrightarrow> w \<le> w' \<Longrightarrow>
   segmentsWidth w xs \<le> segmentsWidth w' ys"
proof (induction xs ys arbitrary: w w' rule: segs_extend.induct)
  case (1 ys)
  have "w' \<le> segmentsWidth w' ys" using "1.prems"(3) by (rule segmentsWidth_grows)
  then show ?case using "1.prems"(4) by simp
next
  case (2 x xs)
  then show ?case by simp
next
  case (3 x xs y ys)
  let ?v' = "segmentsWidth w' [y]"
  have dv': "fl ?v' = ?v'" using "3.prems"(3) by (rule segment_step_double)
  from "3.prems"(1) have "(seg_le x y \<and> segs_extend xs ys) \<or> segs_extend (x # xs) ys" by simp
  then show ?case
  proof
    assume a: "seg_le x y \<and> segs_extend xs ys"
    let ?v = "segmentsWidth w [x]"
    have dv: "fl ?v = ?v" using "3.prems"(2) by (rule segment_step_double)
    have le: "?v \<le> ?v'" using a "3.prems"(4) by (intro segment_step_mono) simp_all
    have "segmentsWidth ?v xs \<le> segmentsWidth ?v' ys"
      using a dv dv' le by (intro "3.IH"(1)) simp_all
    then show ?thesis
      by (simp only: segmentsWidth_Cons[of w x xs] segmentsWidth_Cons[of w' y ys])
  next
    assume a: "segs_extend (x # xs) ys"
    have "w' \<le> ?v'" using "3.prems"(3) by (rule segment_step_grows)
    then have le: "w \<le> ?v'" using "3.prems"(4) by simp
    have "segmentsWidth w (x # xs) \<le> segmentsWidth ?v' ys"
      using a "3.prems"(2) dv' le by (intro "3.IH"(2)) simp_all
    then show ?thesis by (simp only: segmentsWidth_Cons[of w' y ys])
  qed
qed

lemma contentWidthOf_parts:
  "contentWidthOf m =
     (let c1 = fl (fl (real (length (badgesOf m)) * BADGE_WIDTH_PX));
          c2 = (if nameOf m \<noteq> []
                then fl (c1 + fl (real (length (nameOf m) + 2) * AVG_CHAR_WIDTH_PX))
                else c1);
          c3 = segmentsWidth c2 (segmentsOf m)
      in if msg_kind m = Superchat \<or> msg_kind m = Bits then fl (c3 + 100) else c3)"
  by (simp add: contentWidthOf_def badgesOf_def nameOf_def segmentsOf_def Let_def fl_zero
      split: option.splits)

lemma badge_stage:
  "fl (fl (fl (real n * BADGE_WIDTH_PX))) = fl (fl (real n * BADGE_WIDTH_PX))"
  "0 \<le> fl (fl (real n * BADGE_WIDTH_PX))"
  "n \<le> n' \<Longrightarrow> fl (fl (real n * BADGE_WIDTH_PX)) \<le> fl (fl (real n' * BADGE_WIDTH_PX))"
proof -
  show "fl (fl (fl (real n * BADGE_WIDTH_PX))) = fl (fl (real n * BADGE_WIDTH_PX))"
    by (simp only: fl_idem)
  show "0 \<le> fl (fl (real n * BADGE_WIDTH_PX))"
    using widths_nonneg(2) by (intro fl_nonneg) simp
  show "fl (fl (real n * BADGE_WIDTH_PX)) \<le> fl (fl (real n' * BADGE_WIDTH_PX))" if "n \<le> n'"
    using that widths_nonneg(2) by (intro fl_mono mult_right_mono) simp_all
qed

lemma name_stage:
  assumes c: "fl c = c" and c': "fl c' = c'" and le: "c \<le> c'" and l: "length a \<le> length a'"
  shows "(if a \<noteq> [] then fl (c + fl (real (length a + 2) * AVG_CHAR_WIDTH_PX)) else c)
         \<le> (if a' \<noteq> [] then fl (c' + fl (real (length a' + 2) * AVG_CHAR_WIDTH_PX)) else c')"
proof (cases "a = []")
  case True
  have "0 \<le> fl (real (length a' + 2) * AVG_CHAR_WIDTH_PX)"
    using widths_nonneg(1) by (intro fl_nonneg) simp
  then have "c' \<le> fl (c' + fl (real (length a' + 2) * AVG_CHAR_WIDTH_PX))"
    using c' by (intro fl_add_nonneg)
  then show ?thesis using True le by auto
next
  case False
  then have ne: "a' \<noteq> []" using l by auto
  have "real (length a + 2) * AVG_CHAR_WIDTH_PX \<le> real (length a' + 2) * AVG_CHAR_WIDTH_PX"
    using l widths_nonneg(1) by (intro mult_right_mono) simp_all
  then have "fl (real (length a + 2) * AVG_CHAR_WIDTH_PX)
             \<le> fl (real (length a' + 2) * AVG_CHAR_WIDTH_PX)"
    by (rule fl_mono)
  then have "c + fl (real (length a + 2) * AVG_CHAR_WIDTH_PX)
             \<le> c' + fl (real (length a' + 2) * AVG_CHAR_WIDTH_PX)"
    using le by simp
  then show ?thesis using False ne by (simp add: fl_mono)
qed

lemma name_stage_double:
  "fl c = c \<Longrightarrow>
   fl (if a \<noteq> [] then fl (c + fl (real (length a + 2) * AVG_CHAR_WIDTH_PX)) else c)
   = (if a \<noteq> [] then fl (c + fl (real (length a + 2) * AVG_CHAR_WIDTH_PX)) else c)"
  by (simp add: fl_idem)

lemma name_stage_nonneg:
  "0 \<le> c \<Longrightarrow>
   0 \<le> (if a \<noteq> [] then fl (c + fl (real (length a + 2) * AVG_CHAR_WIDTH_PX)) else c)"
proof -
  assume c: "0 \<le> c"
  have "0 \<le> fl (real (length a + 2) * AVG_CHAR_WIDTH_PX)"
    using widths_nonneg(1) by (intro fl_nonneg) simp
  then have "0 \<le> fl (c + fl (real (length a + 2) * AVG_CHAR_WIDTH_PX))"
    using c by (intro fl_nonneg) simp
  then show ?thesis using c by simp
qed

lemma contentWidthOf_double: "fl (contentWidthOf m) = contentWidthOf m"
proof -
  define c1 where "c1 = fl (fl (real (length (badgesOf m)) * BADGE_WIDTH_PX))"
  define c2 where "c2 = (if nameOf m \<noteq> []
                then fl (c1 + fl (real (length (nameOf m) + 2) * AVG_CHAR_WIDTH_PX))
                else c1)"
  define c3 where "c3 = segmentsWidth c2 (segmentsOf m)"
  have d1: "fl c1 = c1" unfolding c1_def by (rule badge_stage(1))
  have d2: "fl c2 = c2" unfolding c2_def using d1 by (rule name_stage_double)
  have d3: "fl c3 = c3" unfolding c3_def using d2 by (rule segmentsWidth_double)
  have "contentWidthOf m = (if msg_kind m = Superchat \<or> msg_kind m = Bits then fl (c3 + 100) else c3)"
    unfolding c1_def c2_def c3_def by (simp only: contentWidthOf_parts Let_def)
  then show ?thesis using d3 by (simp add: fl_idem)
qed

lemma contentWidthOf_nonneg: "0 \<le> contentWidthOf m"
proof -
  define c1 where "c1 = fl (fl (real (length (badgesOf m)) * BADGE_WIDTH_PX))"
  define c2 where "c2 = (if nameOf m \<noteq> []
                then fl (c1 + fl (real (length (nameOf m) + 2) * AVG_CHAR_WIDTH_PX))
                else c1)"
  define c3 where "c3 = segmentsWidth c2 (segmentsOf m)"
  have d1: "fl c1 = c1" unfolding c1_def by (rule badge_stage(1))
  have d2: "fl c2 = c2" unfolding c2_def using d1 by (rule name_stage_double)
  have n1: "0 \<le> c1" unfolding c1_def by (rule badge_stage(2))
  have n2: "0 \<le> c2" unfolding c2_def using n1 by (rule name_stage_nonneg)
  have "c2 \<le> c3" unfolding c3_def using d2 by (rule segmentsWidth_grows)
  then have n3: "0 \<le> c3" using n2 by simp
  then have "0 \<le> fl (c3 + 100)" by (intro fl_nonneg) simp
  moreover have "contentWidthOf m
      = (if msg_kind m = Superchat \<or> msg_kind m = Bits then fl (c3 + 100) else c3)"
    unfolding c1_def c2_def c3_def by (simp only: contentWidthOf_parts Let_def)
  ultimately show ?thesis using n3 by simp
qed

lemma extends_width: "extends m m' \<Longrightarrow> contentWidthOf m \<le> contentWidthOf m'"
proof -
  assume e: "extends m m'"
  define c1 where "c1 = fl (fl (real (length (badgesOf m)) * BADGE_WIDTH_PX))"
  define c2 where "c2 = (if nameOf m \<noteq> []
                then fl (c1 + fl (real (length (nameOf m) + 2) * AVG_CHAR_WIDTH_PX))
                else c1)"
  define c3 where "c3 = segmentsWidth c2 (segmentsOf m)"
  define c1' where "c1' = fl (fl (real (length (badgesOf m')) * BADGE_WIDTH_PX))"
  define c2' where "c2' = (if nameOf m' \<noteq> []
                then fl (c1' + fl (real (length (nameOf m') + 2) * AVG_CHAR_WIDTH_PX))
                else c1')"
  define c3' where "c3' = segmentsWidth c2' (segmentsOf m')"
  have d1: "fl c1 = c1" unfolding c1_def by (rule badge_stage(1))
  have d1': "fl c1' = c1'" unfolding c1'_def by (rule badge_stage(1))
  have d2: "fl c2 = c2" unfolding c2_def using d1 by (rule name_stage_double)
  have d2': "fl c2' = c2'" unfolding c2'_def using d1' by (rule name_stage_double)
  have l1: "c1 \<le> c1'"
    unfolding c1_def c1'_def using e by (intro badge_stage(3)) (simp add: extends_def)
  have l2: "c2 \<le> c2'"
    unfolding c2_def c2'_def using d1 d1' l1 e by (intro name_stage) (simp_all add: extends_def)
  have l3: "c3 \<le> c3'"
    unfolding c3_def c3'_def using e d2 d2' l2
    by (intro segs_extend_width) (simp_all add: extends_def)
  have k: "msg_kind m' = msg_kind m" using e by (simp add: extends_def)
  have a: "contentWidthOf m
      = (if msg_kind m = Superchat \<or> msg_kind m = Bits then fl (c3 + 100) else c3)"
    unfolding c1_def c2_def c3_def by (simp only: contentWidthOf_parts Let_def)
  have b: "contentWidthOf m'
      = (if msg_kind m = Superchat \<or> msg_kind m = Bits then fl (c3' + 100) else c3')"
    unfolding c1'_def c2'_def c3'_def by (simp only: contentWidthOf_parts Let_def k)
  have "fl (c3 + 100) \<le> fl (c3' + 100)" using l3 by (intro fl_mono) simp
  then show ?thesis unfolding a b using l3 by simp
qed

lemma calculateMessageLines_negative:
  assumes "w < 0"
  shows "calculateMessageLines m w = Lines 1"
    and "\<lceil>fl (contentWidthOf m / w)\<rceil> \<le> 0"
proof -
  have "contentWidthOf m / w \<le> 0"
    using assms contentWidthOf_nonneg[of m] by (simp add: divide_nonneg_neg)
  then have "fl (contentWidthOf m / w) \<le> 0" by (rule fl_nonpos)
  then show c: "\<lceil>fl (contentWidthOf m / w)\<rceil> \<le> 0" by (simp add: ceiling_le_zero)
  then have "max 1 \<lceil>fl (contentWidthOf m / w)\<rceil> = 1" by simp
  then show "calculateMessageLines m w = Lines 1"
    using assms by (simp add: calculateMessageLines_def Let_def)
qed

lemma calculateMessageLines_positive:
  "0 < w \<Longrightarrow>
   calculateMessageLines m w
   = (if overflowLimit \<le> contentWidthOf m \<or> overflowLimit \<le> fl (contentWidthOf m / w)
      then InfiniteLines
      else Lines (max 1 \<lceil>fl (contentWidthOf m / w)\<rceil>))"
  by (simp add: calculateMessageLines_def Let_def)

lemma calculateMessageLines_finite:
  assumes "1 \<le> w" and "contentWidthOf m < overflowLimit"
  shows "calculateMessageLines m w = Lines (max 1 \<lceil>fl (contentWidthOf m / w)\<rceil>)"
proof -
  have "contentWidthOf m / w \<le> contentWidthOf m / 1"
    using assms(1) contentWidthOf_nonneg[of m] by (intro divide_left_mono) simp_all
  then have "fl (contentWidthOf m / w) \<le> fl (contentWidthOf m)"
    by (intro fl_mono) simp
  then have "fl (contentWidthOf m / w) < overflowLimit"
    using assms(2) by (simp add: contentWidthOf_double)
  then show ?thesis
    using assms by (simp add: calculateMessageLines_positive)
qed

lemma calculateMessageLines_mono:
  assumes "w \<noteq> 0" and "contentWidthOf m \<le> contentWidthOf m'"
  shows "estimate_le (calculateMessageLines m w) (calculateMessageLines m' w)"
proof (cases "w < 0")
  case True
  then show ?thesis by (simp add: calculateMessageLines_negative(1))
next
  case False
  then have pos: "0 < w" using assms(1) by simp
  have "contentWidthOf m / w \<le> contentWidthOf m' / w"
    using pos assms(2) by (intro divide_right_mono) simp_all
  then have q: "fl (contentWidthOf m / w) \<le> fl (contentWidthOf m' / w)" by (rule fl_mono)
  then have "\<lceil>fl (contentWidthOf m / w)\<rceil> \<le> \<lceil>fl (contentWidthOf m' / w)\<rceil>"
    by (rule ceiling_mono)
  then show ?thesis
    using pos q assms(2) by (auto simp add: calculateMessageLines_positive le_max_iff_disj)
qed

lemma calculateMessageLines_width_only:
  "contentWidthOf m' = contentWidthOf m \<Longrightarrow>
   calculateMessageLines m' w = calculateMessageLines m w"
  by (simp add: calculateMessageLines_def)

lemma small_below_overflowLimit: "x \<le> 2 ^ 64 \<Longrightarrow> x < overflowLimit"
proof -
  assume "x \<le> 2 ^ 64"
  moreover have "(2::real) ^ 64 < 2 ^ 1024" by (rule power_strict_increasing) simp_all
  ultimately show ?thesis by (simp add: overflowLimit_def)
qed

lemma short_width: "contentWidthOf (textMessage ''m0'' 0 ''hello'') = 88"
  by (simp add: contentWidthOf_def textMessage_def Let_def AVG_value BADGE_value fl_zero
      estimator_evals)

text \<open>
  Two messages whose estimate in exact arithmetic is a whole number of lines, and in
  double arithmetic is just above it: \<open>5 * 8.8 + 1405 * 8.8\<close> over 376, and
  \<open>25 * 8.8\<close> over 44.
\<close>

lemma fl_at_8: "fl (3480156612050551065 / 281474976710656) = 6797180882911233 / 549755813888"
  by code_simp

lemma fl_at_9: "fl (6821370138722305 / 549755813888) = 6821370138722305 / 549755813888"
  by code_simp

lemma fl_at_10: "fl (6821370138722305 / 206708186021888) = 4644337115725825 / 140737488355328"
  by code_simp

lemma fl_at_11: "fl (61924494876344325 / 281474976710656) = 7740561859543041 / 35184372088832"
  by code_simp

lemma fl_at_12: "fl (7740561859543041 / 35184372088832) = 7740561859543041 / 35184372088832"
  by code_simp

lemma fl_at_13: "fl (7740561859543041 / 1548112371908608) = 5629499534213121 / 1125899906842624"
  by code_simp

lemmas estimator_evals_more =
  fl_at_8 fl_at_9 fl_at_10 fl_at_11 fl_at_12 fl_at_13

lemma rounded_up_default:
  "calculateMessageLines_default (textMessage ''m1'' 0 (replicate 1405 CHR ''a'')) = 34"
  by (simp add: calculateMessageLines_default_def contentWidthOf_def textMessage_def Let_def
      AVG_value BADGE_value defaultContainerWidth_value fl_zero estimator_evals
      estimator_evals_more)

lemma rounded_up_width_44:
  "calculateMessageLines
     ((bareMessage ''m1'' 0)
        \<lparr> msg_content := Some \<lparr> raw = replicate 25 CHR ''a'',
                                 segments = Some [TextSeg (replicate 25 CHR ''a'')] \<rparr> \<rparr>) 44
   = Lines 6"
proof -
  have "(7740561859543041 / 35184372088832 :: real) \<le> 2 ^ 64" by simp
  then have "(7740561859543041 / 35184372088832 :: real) < overflowLimit"
    by (rule small_below_overflowLimit)
  moreover have "(5629499534213121 / 1125899906842624 :: real) \<le> 2 ^ 64" by simp
  then have "(5629499534213121 / 1125899906842624 :: real) < overflowLimit"
    by (rule small_below_overflowLimit)
  ultimately show ?thesis
    by (simp add: calculateMessageLines_def contentWidthOf_def bareMessage_def Let_def
        AVG_value fl_zero estimator_evals_more)
qed

lemma tiny_width_infinite:
  "calculateMessageLines (textMessage ''m0'' 0 ''hello'') (2 powi (- 1074)) = InfiniteLines"
proof -
  have p: "(0::real) < 2 powi (- 1074)" by simp
  have d: "(88::real) / 2 powi (- 1074) = of_int 11 * 2 powi 1077"
    by (simp add: power_int_minus field_simps)
  have f: "fl (of_int 11 * 2 powi 1077) = of_int 11 * 2 powi 1077"
    by (rule fl_pow2_multiple) simp_all
  have "(2::real) ^ 1024 \<le> 2 ^ 1077" by (rule power_increasing) simp_all
  then have "(2::real) ^ 1024 \<le> 11 * 2 ^ 1077" by simp
  then have o: "overflowLimit \<le> of_int 11 * 2 powi 1077"
    by (simp add: overflowLimit_def)
  show ?thesis
    using o p by (simp only: calculateMessageLines_positive[OF p] short_width d f) simp
qed

text \<open>
  Claim C7, as the spec states it, fails at a container width of zero: the division then
  gives \<open>NaN\<close> for a message without content, and \<open>Math.max(1, NaN)\<close> is \<open>NaN\<close>;
  for a message with content it gives \<open>Infinity\<close>. Neither is a positive integer. At the
  smallest positive width, \<open>2^-1074\<close>, the quotient overflows and the result is
  \<open>Infinity\<close> as well.
\<close>

theorem zero_width_not_a_line_count:
  "calculateMessageLines (bareMessage ''m0'' 0) 0 = NotANumber
   \<and> calculateMessageLines (textMessage ''m0'' 0 ''hello'') 0 = InfiniteLines
   \<and> calculateMessageLines (textMessage ''m0'' 0 ''hello'') (2 powi (- 1074)) = InfiniteLines"
proof -
  have "contentWidthOf (bareMessage ''m0'' 0) = 0"
    by (simp add: contentWidthOf_def bareMessage_def)
  then have a: "calculateMessageLines (bareMessage ''m0'' 0) 0 = NotANumber"
    by (simp add: calculateMessageLines_def)
  have b: "calculateMessageLines (textMessage ''m0'' 0 ''hello'') 0 = InfiniteLines"
    by (simp add: calculateMessageLines_def short_width)
  show ?thesis using a b tiny_width_infinite by blast
qed

text \<open>
  Claim C7, amended: for every message and every container width other than zero, the
  estimator never returns \<open>NaN\<close>. Where it returns a number of lines \<open>n\<close>, this is an
  integer with \<open>n \<ge> 1\<close>: the estimate, which is the quotient of the estimated width by
  the container width as computed in double arithmetic, rounded up, or 1 where that is
  smaller; so \<open>n\<close> is never below the estimate. It returns a number of lines for every
  negative width, and for every width of at least 1 when the estimated width has not
  overflowed; otherwise the quotient can overflow and the result is \<open>Infinity\<close>. It is
  monotonic, \<open>Infinity\<close> counting as above every number of lines: a message extended by
  badges, a longer author name, added segments or longer text segments never gets a
  smaller result, and two messages that extend each other get the same one. The result is
  a function of the message and the width alone. With the default width, which is 376,
  and an estimated width that has not overflowed, the result is the line count that
  \<open>addMessages\<close> stores.
\<close>

theorem estimator_positive_monotone:
  assumes "containerWidth \<noteq> 0"
  shows "calculateMessageLines m containerWidth \<noteq> NotANumber
         \<and> (\<forall>n. calculateMessageLines m containerWidth = Lines n \<longrightarrow>
                1 \<le> n
                \<and> n = max 1 \<lceil>fl (contentWidthOf m / containerWidth)\<rceil>
                \<and> fl (contentWidthOf m / containerWidth) \<le> real_of_int n)
         \<and> (containerWidth < 0 \<or> 1 \<le> containerWidth \<and> contentWidthOf m < overflowLimit \<longrightarrow>
                (\<exists>n. calculateMessageLines m containerWidth = Lines n))
         \<and> (\<forall>m'. extends m m' \<longrightarrow>
                estimate_le (calculateMessageLines m containerWidth)
                  (calculateMessageLines m' containerWidth))
         \<and> (\<forall>m'. extends m m' \<and> extends m' m \<longrightarrow>
                calculateMessageLines m' containerWidth = calculateMessageLines m containerWidth)
         \<and> (contentWidthOf m < overflowLimit \<longrightarrow>
                calculateMessageLines m defaultContainerWidth
                = Lines (calculateMessageLines_default m))"
proof -
  let ?q = "fl (contentWidthOf m / containerWidth)"
  have nan: "calculateMessageLines m containerWidth \<noteq> NotANumber"
    using assms by (simp add: calculateMessageLines_def Let_def)
  have val: "\<forall>n. calculateMessageLines m containerWidth = Lines n \<longrightarrow>
                1 \<le> n \<and> n = max 1 \<lceil>?q\<rceil> \<and> ?q \<le> real_of_int n"
  proof (intro allI impI)
    fix n
    assume l: "calculateMessageLines m containerWidth = Lines n"
    have n: "n = max 1 \<lceil>?q\<rceil>"
      using l assms by (simp add: calculateMessageLines_def Let_def split: if_splits)
    have "?q \<le> real_of_int \<lceil>?q\<rceil>" by (rule le_of_int_ceiling)
    also have "\<dots> \<le> real_of_int (max 1 \<lceil>?q\<rceil>)" by simp
    finally have "?q \<le> real_of_int n" using n by simp
    moreover have "1 \<le> n" using n by simp
    ultimately show "1 \<le> n \<and> n = max 1 \<lceil>?q\<rceil> \<and> ?q \<le> real_of_int n"
      using n by blast
  qed
  have fin: "containerWidth < 0 \<or> 1 \<le> containerWidth \<and> contentWidthOf m < overflowLimit \<longrightarrow>
             (\<exists>n. calculateMessageLines m containerWidth = Lines n)"
    using calculateMessageLines_negative(1)[of containerWidth m]
      calculateMessageLines_finite[of containerWidth m] by blast
  have mono: "\<forall>m'. extends m m' \<longrightarrow>
                estimate_le (calculateMessageLines m containerWidth)
                  (calculateMessageLines m' containerWidth)"
    using assms extends_width calculateMessageLines_mono by blast
  have same: "\<forall>m'. extends m m' \<and> extends m' m \<longrightarrow>
                calculateMessageLines m' containerWidth = calculateMessageLines m containerWidth"
  proof (intro allI impI)
    fix m'
    assume e: "extends m m' \<and> extends m' m"
    then have "contentWidthOf m \<le> contentWidthOf m'" "contentWidthOf m' \<le> contentWidthOf m"
      using extends_width by blast+
    then have "contentWidthOf m' = contentWidthOf m" by simp
    then show "calculateMessageLines m' containerWidth = calculateMessageLines m containerWidth"
      by (rule calculateMessageLines_width_only)
  qed
  have dflt: "contentWidthOf m < overflowLimit \<longrightarrow>
                calculateMessageLines m defaultContainerWidth
                = Lines (calculateMessageLines_default m)"
  proof
    assume "contentWidthOf m < overflowLimit"
    then have "calculateMessageLines m 376 = Lines (max 1 \<lceil>fl (contentWidthOf m / 376)\<rceil>)"
      by (intro calculateMessageLines_finite) simp_all
    then show "calculateMessageLines m defaultContainerWidth
               = Lines (calculateMessageLines_default m)"
      by (simp add: calculateMessageLines_default_def defaultContainerWidth_value Let_def)
  qed
  show ?thesis using nan val fin mono same dflt by blast
qed

theorem estimator_positive_monotone_witness:
  "(376::real) \<noteq> 0
   \<and> extends (textMessage ''m0'' 0 ''hello'') (textMessage ''m1'' 0 (replicate 2000 CHR ''a''))
   \<and> contentWidthOf (textMessage ''m0'' 0 ''hello'') < overflowLimit
   \<and> calculateMessageLines (textMessage ''m0'' 0 ''hello'') 376 = Lines 1
   \<and> calculateMessageLines (textMessage ''m1'' 0 (replicate 2000 CHR ''a'')) 376 = Lines 47
   \<and> estimate_le (calculateMessageLines (textMessage ''m0'' 0 ''hello'') 376)
       (calculateMessageLines (textMessage ''m1'' 0 (replicate 2000 CHR ''a'')) 376)"
proof -
  have w: "(376::real) \<noteq> 0" by simp
  have e: "extends (textMessage ''m0'' 0 ''hello'') (textMessage ''m1'' 0 (replicate 2000 CHR ''a''))"
    by (simp add: extends_def textMessage_def badgesOf_def nameOf_def segmentsOf_def)
  have "contentWidthOf (textMessage ''m0'' 0 ''hello'') \<le> 2 ^ 64"
    by (simp add: short_width)
  then have o: "contentWidthOf (textMessage ''m0'' 0 ''hello'') < overflowLimit"
    by (rule small_below_overflowLimit)
  note t = estimator_positive_monotone[OF w, of "textMessage ''m0'' 0 ''hello''"]
  have d: "calculateMessageLines (textMessage ''m0'' 0 ''hello'') defaultContainerWidth
           = Lines (calculateMessageLines_default (textMessage ''m0'' 0 ''hello''))"
    using t o by blast
  have a: "calculateMessageLines (textMessage ''m0'' 0 ''hello'') 376 = Lines 1"
    using d by (simp add: defaultContainerWidth_value short_lines)
  have m: "estimate_le (calculateMessageLines (textMessage ''m0'' 0 ''hello'') 376)
       (calculateMessageLines (textMessage ''m1'' 0 (replicate 2000 CHR ''a'')) 376)"
    using t e by blast
  have c: "contentWidthOf (textMessage ''m1'' 0 (replicate 2000 CHR ''a'')) = 17644"
    by (simp add: contentWidthOf_def textMessage_def Let_def AVG_value BADGE_value fl_zero
        estimator_evals)
  have "contentWidthOf (textMessage ''m1'' 0 (replicate 2000 CHR ''a'')) \<le> 2 ^ 64"
    by (simp add: c)
  then have o': "contentWidthOf (textMessage ''m1'' 0 (replicate 2000 CHR ''a'')) < overflowLimit"
    by (rule small_below_overflowLimit)
  note t' = estimator_positive_monotone[OF w, of "textMessage ''m1'' 0 (replicate 2000 CHR ''a'')"]
  have "\<exists>n. calculateMessageLines (textMessage ''m1'' 0 (replicate 2000 CHR ''a'')) 376 = Lines n"
    using t' o' by simp
  then obtain n where
    n: "calculateMessageLines (textMessage ''m1'' 0 (replicate 2000 CHR ''a'')) 376 = Lines n"
    by blast
  have "n = max 1 \<lceil>fl (contentWidthOf (textMessage ''m1'' 0 (replicate 2000 CHR ''a'')) / 376)\<rceil>"
    using t' n by blast
  then have "n = 47"
    by (simp add: c estimator_evals)
  then have b: "calculateMessageLines (textMessage ''m1'' 0 (replicate 2000 CHR ''a'')) 376 = Lines 47"
    using n by simp
  show ?thesis using w e o a b m by blast
qed

section \<open>Properties of the batcher\<close>

lemma getNextBatch_loop_unfold:
  "getNextBatch_loop w batch b =
     (if currentIndex b < length (messages b)
         \<and> timestamp_ms (messages b ! currentIndex b) \<le> w
      then (if BATCH_MAX_MESSAGES \<le> length batch + 1
            then (batch @ [messages b ! currentIndex b], b\<lparr>currentIndex := currentIndex b + 1\<rparr>)
            else getNextBatch_loop w (batch @ [messages b ! currentIndex b])
                   (b\<lparr>currentIndex := currentIndex b + 1\<rparr>))
      else (batch, b))"
  by (subst getNextBatch_loop.simps) (auto simp add: Let_def)

lemma loop_messages: "messages (snd (getNextBatch_loop w batch b)) = messages b"
proof (induction "length (messages b) - currentIndex b" arbitrary: batch b rule: less_induct)
  case less
  let ?b' = "b\<lparr>currentIndex := currentIndex b + 1\<rparr>"
  let ?m = "messages b ! currentIndex b"
  show ?case
  proof (cases "currentIndex b < length (messages b) \<and> timestamp_ms ?m \<le> w")
    case True
    show ?thesis
    proof (cases "BATCH_MAX_MESSAGES \<le> length batch + 1")
      case full: True
      then show ?thesis using True by (subst getNextBatch_loop_unfold) simp
    next
      case False
      have "length (messages ?b') - currentIndex ?b' < length (messages b) - currentIndex b"
        using True by auto
      then have "messages (snd (getNextBatch_loop w (batch @ [?m]) ?b')) = messages ?b'"
        by (rule less.hyps)
      then show ?thesis using True False by (subst getNextBatch_loop_unfold) simp
    qed
  next
    case False
    then show ?thesis by (subst getNextBatch_loop_unfold) auto
  qed
qed

lemma loop_cursor:
  "currentIndex b \<le> currentIndex (snd (getNextBatch_loop w batch b))
   \<and> (currentIndex b \<le> length (messages b) \<longrightarrow>
        currentIndex (snd (getNextBatch_loop w batch b)) \<le> length (messages b))"
proof (induction "length (messages b) - currentIndex b" arbitrary: batch b rule: less_induct)
  case less
  let ?b' = "b\<lparr>currentIndex := currentIndex b + 1\<rparr>"
  let ?m = "messages b ! currentIndex b"
  show ?case
  proof (cases "currentIndex b < length (messages b) \<and> timestamp_ms ?m \<le> w")
    case True
    show ?thesis
    proof (cases "BATCH_MAX_MESSAGES \<le> length batch + 1")
      case full: True
      then show ?thesis using True by (subst (1 2) getNextBatch_loop_unfold) simp
    next
      case False
      have "length (messages ?b') - currentIndex ?b' < length (messages b) - currentIndex b"
        using True by auto
      then have "currentIndex ?b' \<le> currentIndex (snd (getNextBatch_loop w (batch @ [?m]) ?b'))
         \<and> (currentIndex ?b' \<le> length (messages ?b') \<longrightarrow>
              currentIndex (snd (getNextBatch_loop w (batch @ [?m]) ?b')) \<le> length (messages ?b'))"
        by (rule less.hyps)
      moreover have "getNextBatch_loop w batch b = getNextBatch_loop w (batch @ [?m]) ?b'"
        using True False by (subst getNextBatch_loop_unfold) simp
      ultimately show ?thesis using True by simp
    qed
  next
    case False
    then have "getNextBatch_loop w batch b = (batch, b)"
      by (subst getNextBatch_loop_unfold) auto
    then show ?thesis by simp
  qed
qed

lemma loop_batch:
  "currentIndex b \<le> length (messages b) \<Longrightarrow>
   fst (getNextBatch_loop w batch b)
     = batch @ take (currentIndex (snd (getNextBatch_loop w batch b)) - currentIndex b)
                 (drop (currentIndex b) (messages b))"
proof (induction "length (messages b) - currentIndex b" arbitrary: batch b rule: less_induct)
  case less
  let ?b' = "b\<lparr>currentIndex := currentIndex b + 1\<rparr>"
  let ?m = "messages b ! currentIndex b"
  show ?case
  proof (cases "currentIndex b < length (messages b) \<and> timestamp_ms ?m \<le> w")
    case True
    then have d: "drop (currentIndex b) (messages b) = ?m # drop (Suc (currentIndex b)) (messages b)"
      by (simp add: Cons_nth_drop_Suc)
    show ?thesis
    proof (cases "BATCH_MAX_MESSAGES \<le> length batch + 1")
      case full: True
      then have "getNextBatch_loop w batch b = (batch @ [?m], ?b')"
        using True by (subst getNextBatch_loop_unfold) simp
      then show ?thesis using d by simp
    next
      case False
      let ?r = "getNextBatch_loop w (batch @ [?m]) ?b'"
      have e: "getNextBatch_loop w batch b = ?r"
        using True False by (subst getNextBatch_loop_unfold) simp
      have "length (messages ?b') - currentIndex ?b' < length (messages b) - currentIndex b"
        using True by auto
      moreover have "currentIndex ?b' \<le> length (messages ?b')" using True by simp
      ultimately have "fst ?r = (batch @ [?m]) @ take (currentIndex (snd ?r) - currentIndex ?b')
                 (drop (currentIndex ?b') (messages ?b'))"
        by (rule less.hyps)
      moreover have "currentIndex ?b' \<le> currentIndex (snd ?r)" using loop_cursor by blast
      then have "currentIndex (snd ?r) - currentIndex b = Suc (currentIndex (snd ?r) - currentIndex ?b')"
        by simp
      ultimately show ?thesis using d e by simp
    qed
  next
    case False
    then have "getNextBatch_loop w batch b = (batch, b)"
      by (subst getNextBatch_loop_unfold) auto
    then show ?thesis by simp
  qed
qed

lemma loop_progress:
  "k < length (messages b) \<Longrightarrow> currentIndex b \<le> k \<Longrightarrow>
   \<forall>j. j \<le> k \<longrightarrow> timestamp_ms (messages b ! j) \<le> w \<Longrightarrow>
   k < currentIndex (snd (getNextBatch_loop w batch b))
   \<or> BATCH_MAX_MESSAGES \<le> length (fst (getNextBatch_loop w batch b))"
proof (induction "length (messages b) - currentIndex b" arbitrary: batch b rule: less_induct)
  case less
  let ?b' = "b\<lparr>currentIndex := currentIndex b + 1\<rparr>"
  let ?m = "messages b ! currentIndex b"
  have c: "currentIndex b < length (messages b) \<and> timestamp_ms ?m \<le> w"
    using less.prems by simp
  show ?case
  proof (cases "BATCH_MAX_MESSAGES \<le> length batch + 1")
    case True
    then have "getNextBatch_loop w batch b = (batch @ [?m], ?b')"
      using c by (subst getNextBatch_loop_unfold) simp
    then show ?thesis using True by simp
  next
    case False
    let ?r = "getNextBatch_loop w (batch @ [?m]) ?b'"
    have e: "getNextBatch_loop w batch b = ?r"
      using c False by (subst getNextBatch_loop_unfold) simp
    show ?thesis
    proof (cases "currentIndex b = k")
      case True
      have "currentIndex ?b' \<le> currentIndex (snd ?r)" using loop_cursor by blast
      then show ?thesis using True e by simp
    next
      case ne: False
      have "length (messages ?b') - currentIndex ?b' < length (messages b) - currentIndex b"
        using c by auto
      moreover have "k < length (messages ?b')" using less.prems by simp
      moreover have "currentIndex ?b' \<le> k" using less.prems ne by simp
      moreover have "\<forall>j. j \<le> k \<longrightarrow> timestamp_ms (messages ?b' ! j) \<le> w"
        using less.prems by simp
      ultimately have "k < currentIndex (snd ?r) \<or> BATCH_MAX_MESSAGES \<le> length (fst ?r)"
        by (rule less.hyps)
      then show ?thesis using e by simp
    qed
  qed
qed

lemma getNextBatch_parts:
  "snd (getNextBatch b t) = snd (getNextBatch_loop (fl (t + BATCH_WINDOW_MS)) [] b)"
  "fst (fst (getNextBatch b t)) = fst (getNextBatch_loop (fl (t + BATCH_WINDOW_MS)) [] b)"
  by (simp_all add: getNextBatch_def Let_def case_prod_beta)

lemma getNextBatch_messages: "messages (snd (getNextBatch b t)) = messages b"
  by (simp add: getNextBatch_parts loop_messages)

lemma getNextBatch_cursor_mono: "currentIndex b \<le> currentIndex (snd (getNextBatch b t))"
  using loop_cursor[of b "fl (t + BATCH_WINDOW_MS)" "[]"] by (simp add: getNextBatch_parts)

lemma getNextBatch_cursor_bound:
  "currentIndex b \<le> length (messages b) \<Longrightarrow>
   currentIndex (snd (getNextBatch b t)) \<le> length (messages b)"
  using loop_cursor[of b "fl (t + BATCH_WINDOW_MS)" "[]"] by (simp add: getNextBatch_parts)

lemma getNextBatch_slice:
  "currentIndex b \<le> length (messages b) \<Longrightarrow>
   fst (fst (getNextBatch b t))
     = take (currentIndex (snd (getNextBatch b t)) - currentIndex b)
         (drop (currentIndex b) (messages b))"
  using loop_batch[of b "fl (t + BATCH_WINDOW_MS)" "[]"] by (simp add: getNextBatch_parts)

lemma sorted_timestamps_upto:
  assumes "sorted (map timestamp_ms msgs)" and "k < length msgs" and "timestamp_ms (msgs ! k) \<le> w"
  shows "\<forall>j. j \<le> k \<longrightarrow> timestamp_ms (msgs ! j) \<le> w"
proof (intro allI impI)
  fix j
  assume jk: "j \<le> k"
  have "map timestamp_ms msgs ! j \<le> map timestamp_ms msgs ! k"
    using assms(1,2) jk by (simp add: sorted_iff_nth_mono del: nth_map)
  then show "timestamp_ms (msgs ! j) \<le> w"
    using assms(2,3) jk by simp
qed

lemma getNextBatch_progress:
  assumes "sorted (map timestamp_ms (messages b))" and "k < length (messages b)"
    and "currentIndex b \<le> length (messages b)"
    and "timestamp_ms (messages b ! k) \<le> fl (t + BATCH_WINDOW_MS)"
  shows "min (k + 1) (currentIndex b + BATCH_MAX_MESSAGES) \<le> currentIndex (snd (getNextBatch b t))"
proof (cases "currentIndex b \<le> k")
  case True
  let ?w = "fl (t + BATCH_WINDOW_MS)"
  let ?r = "getNextBatch_loop ?w [] b"
  have "\<forall>j. j \<le> k \<longrightarrow> timestamp_ms (messages b ! j) \<le> ?w"
    using assms(1,2,4) by (rule sorted_timestamps_upto)
  then have p: "k < currentIndex (snd ?r) \<or> BATCH_MAX_MESSAGES \<le> length (fst ?r)"
    using assms(2) True by (intro loop_progress)
  have f: "fst ?r = take (currentIndex (snd ?r) - currentIndex b) (drop (currentIndex b) (messages b))"
    using loop_batch[OF assms(3), of ?w "[]"] by simp
  have "length (fst ?r) \<le> currentIndex (snd ?r) - currentIndex b"
    by (subst f) simp
  moreover have "currentIndex b \<le> currentIndex (snd ?r)" using loop_cursor by blast
  ultimately have "k < currentIndex (snd ?r) \<or> currentIndex b + BATCH_MAX_MESSAGES \<le> currentIndex (snd ?r)"
    using p by linarith
  then show ?thesis by (auto simp add: getNextBatch_parts)
next
  case False
  then show ?thesis using getNextBatch_cursor_mono[of b t] by simp
qed

lemma getBatches_Cons:
  "getBatches b (t # ts)
   = (fst (fst (getNextBatch b t)) # fst (getBatches (snd (getNextBatch b t)) ts),
      snd (getBatches (snd (getNextBatch b t)) ts))"
  by (simp add: Let_def case_prod_beta)

lemma getBatches_messages: "messages (snd (getBatches b ts)) = messages b"
proof (induction ts arbitrary: b)
  case Nil
  then show ?case by simp
next
  case (Cons t ts)
  then show ?case by (simp only: getBatches_Cons snd_conv getNextBatch_messages)
qed

lemma getBatches_length: "length (fst (getBatches b ts)) = length ts"
proof (induction ts arbitrary: b)
  case Nil
  then show ?case by simp
next
  case (Cons t ts)
  then show ?case by (simp only: getBatches_Cons fst_conv length_Cons)
qed

lemma getBatches_cursor_mono: "currentIndex b \<le> currentIndex (snd (getBatches b ts))"
proof (induction ts arbitrary: b)
  case Nil
  then show ?case by simp
next
  case (Cons t ts)
  have "currentIndex b \<le> currentIndex (snd (getNextBatch b t))"
    by (rule getNextBatch_cursor_mono)
  also have "\<dots> \<le> currentIndex (snd (getBatches (snd (getNextBatch b t)) ts))"
    by (rule Cons.IH)
  finally show ?case by (simp only: getBatches_Cons snd_conv)
qed

lemma getBatches_cursor_bound:
  "currentIndex b \<le> length (messages b) \<Longrightarrow>
   currentIndex (snd (getBatches b ts)) \<le> length (messages b)"
proof (induction ts arbitrary: b)
  case Nil
  then show ?case by simp
next
  case (Cons t ts)
  let ?b' = "snd (getNextBatch b t)"
  have "currentIndex ?b' \<le> length (messages ?b')"
    using Cons.prems by (simp add: getNextBatch_cursor_bound getNextBatch_messages)
  then have "currentIndex (snd (getBatches ?b' ts)) \<le> length (messages ?b')"
    by (rule Cons.IH)
  then show ?case by (simp only: getBatches_Cons snd_conv getNextBatch_messages)
qed

lemma take_drop_join:
  "i \<le> j \<Longrightarrow> j \<le> n \<Longrightarrow>
   take (j - i) (drop i xs) @ take (n - j) (drop j xs) = take (n - i) (drop i xs)"
proof -
  assume ij: "i \<le> j" and jn: "j \<le> n"
  have "take (n - i) (drop i xs) = take ((j - i) + (n - j)) (drop i xs)"
    using ij jn by simp
  also have "\<dots> = take (j - i) (drop i xs) @ take (n - j) (drop (j - i) (drop i xs))"
    by (rule take_add)
  also have "drop (j - i) (drop i xs) = drop j xs"
    using ij by simp
  finally show ?thesis by simp
qed

lemma getBatches_concat:
  "currentIndex b \<le> length (messages b) \<Longrightarrow>
   concat (fst (getBatches b ts))
     = take (currentIndex (snd (getBatches b ts)) - currentIndex b)
         (drop (currentIndex b) (messages b))"
proof (induction ts arbitrary: b)
  case Nil
  then show ?case by simp
next
  case (Cons t ts)
  let ?b' = "snd (getNextBatch b t)"
  let ?b'' = "snd (getBatches ?b' ts)"
  have m: "messages ?b' = messages b" by (rule getNextBatch_messages)
  have le': "currentIndex ?b' \<le> length (messages ?b')"
    using Cons.prems by (simp add: getNextBatch_cursor_bound m)
  have ih: "concat (fst (getBatches ?b' ts))
      = take (currentIndex ?b'' - currentIndex ?b') (drop (currentIndex ?b') (messages b))"
    using Cons.IH[OF le'] by (simp only: m)
  have first: "fst (fst (getNextBatch b t))
      = take (currentIndex ?b' - currentIndex b) (drop (currentIndex b) (messages b))"
    using Cons.prems by (rule getNextBatch_slice)
  have "concat (fst (getBatches b (t # ts)))
      = fst (fst (getNextBatch b t)) @ concat (fst (getBatches ?b' ts))"
    by (simp only: getBatches_Cons fst_conv concat.simps)
  also have "\<dots> = take (currentIndex ?b' - currentIndex b) (drop (currentIndex b) (messages b))
                  @ take (currentIndex ?b'' - currentIndex ?b') (drop (currentIndex ?b') (messages b))"
    by (simp only: first ih)
  also have "\<dots> = take (currentIndex ?b'' - currentIndex b) (drop (currentIndex b) (messages b))"
    using getNextBatch_cursor_mono[of b t] getBatches_cursor_mono[of ?b' ts]
    by (intro take_drop_join)
  finally show ?case by (simp only: getBatches_Cons snd_conv)
qed

lemma batchCursors_lower: "\<forall>c \<in> set (batchCursors b ts). currentIndex b \<le> c"
proof (induction ts arbitrary: b)
  case Nil
  then show ?case by simp
next
  case (Cons t ts)
  have "\<forall>c \<in> set (batchCursors (snd (getNextBatch b t)) ts).
          currentIndex (snd (getNextBatch b t)) \<le> c"
    by (rule Cons.IH)
  then have "\<forall>c \<in> set (batchCursors (snd (getNextBatch b t)) ts). currentIndex b \<le> c"
    using getNextBatch_cursor_mono[of b t] by fastforce
  then show ?case by simp
qed

lemma batchCursors_sorted: "sorted (batchCursors b ts)"
proof (induction ts arbitrary: b)
  case Nil
  then show ?case by simp
next
  case (Cons t ts)
  have "\<forall>c \<in> set (batchCursors (snd (getNextBatch b t)) ts).
          currentIndex (snd (getNextBatch b t)) \<le> c"
    by (rule batchCursors_lower)
  then have "\<forall>c \<in> set (batchCursors (snd (getNextBatch b t)) ts). currentIndex b \<le> c"
    using getNextBatch_cursor_mono[of b t] by fastforce
  then show ?case using Cons.IH by simp
qed

lemma batchCursors_length: "length (batchCursors b ts) = Suc (length ts)"
  by (induction ts arbitrary: b) simp_all

lemma batchCursors_hd: "batchCursors b ts ! 0 = currentIndex b"
  by (cases ts) simp_all

lemma getBatches_slices:
  "currentIndex b \<le> length (messages b) \<Longrightarrow> n < length ts \<Longrightarrow>
   fst (getBatches b ts) ! n
     = take (batchCursors b ts ! Suc n - batchCursors b ts ! n)
         (drop (batchCursors b ts ! n) (messages b))"
proof (induction ts arbitrary: b n)
  case Nil
  then show ?case by simp
next
  case (Cons t ts)
  let ?b' = "snd (getNextBatch b t)"
  have m: "messages ?b' = messages b" by (rule getNextBatch_messages)
  have le': "currentIndex ?b' \<le> length (messages ?b')"
    using Cons.prems(1) by (simp add: getNextBatch_cursor_bound m)
  show ?case
  proof (cases n)
    case 0
    have "fst (getBatches b (t # ts)) ! 0 = fst (fst (getNextBatch b t))"
      by (simp only: getBatches_Cons fst_conv nth_Cons_0)
    also have "\<dots> = take (currentIndex ?b' - currentIndex b) (drop (currentIndex b) (messages b))"
      using Cons.prems(1) by (rule getNextBatch_slice)
    finally show ?thesis using 0 by (simp add: batchCursors_hd)
  next
    case (Suc n')
    then have "n' < length ts" using Cons.prems(2) by simp
    then have "fst (getBatches ?b' ts) ! n'
        = take (batchCursors ?b' ts ! Suc n' - batchCursors ?b' ts ! n')
            (drop (batchCursors ?b' ts ! n') (messages ?b'))"
      using le' by (intro Cons.IH)
    moreover have "fst (getBatches b (t # ts)) ! n = fst (getBatches ?b' ts) ! n'"
      using Suc by (simp only: getBatches_Cons fst_conv nth_Cons_Suc)
    ultimately show ?thesis using Suc by (simp add: m)
  qed
qed

lemma getBatches_append:
  "snd (getBatches b (xs @ ys)) = snd (getBatches (snd (getBatches b xs)) ys)"
proof (induction xs arbitrary: b)
  case Nil
  then show ?case by simp
next
  case (Cons t xs)
  have "snd (getBatches b ((t # xs) @ ys)) = snd (getBatches (snd (getNextBatch b t)) (xs @ ys))"
    by (simp only: append_Cons getBatches_Cons snd_conv)
  also have "\<dots> = snd (getBatches (snd (getBatches (snd (getNextBatch b t)) xs)) ys)"
    by (rule Cons.IH)
  finally show ?case by (simp only: getBatches_Cons snd_conv)
qed

lemma getBatches_progress:
  assumes "sorted (map timestamp_ms (messages b))" and "k < length (messages b)"
    and "currentIndex b \<le> length (messages b)"
    and "\<forall>t \<in> set ts. timestamp_ms (messages b ! k) \<le> fl (t + BATCH_WINDOW_MS)"
  shows "min (k + 1) (currentIndex b + BATCH_MAX_MESSAGES * length ts)
           \<le> currentIndex (snd (getBatches b ts))"
  using assms
proof (induction ts arbitrary: b)
  case Nil
  then show ?case by simp
next
  case (Cons t ts)
  let ?b' = "snd (getNextBatch b t)"
  have m: "messages ?b' = messages b" by (rule getNextBatch_messages)
  have le': "currentIndex ?b' \<le> length (messages ?b')"
    using Cons.prems(3) by (simp add: getNextBatch_cursor_bound m)
  have one: "min (k + 1) (currentIndex b + BATCH_MAX_MESSAGES) \<le> currentIndex ?b'"
    using Cons.prems by (intro getNextBatch_progress) simp_all
  have "min (k + 1) (currentIndex ?b' + BATCH_MAX_MESSAGES * length ts)
           \<le> currentIndex (snd (getBatches ?b' ts))"
    using Cons.prems le' by (intro Cons.IH) (simp_all add: m)
  then have "min (k + 1) (currentIndex b + BATCH_MAX_MESSAGES * length (t # ts))
           \<le> currentIndex (snd (getBatches ?b' ts))"
    using one by (simp add: min_def split: if_splits)
  then show ?case by (simp only: getBatches_Cons snd_conv)
qed

lemma getBatches_eventually:
  assumes srt: "sorted (map timestamp_ms (messages b))" and tsrt: "sorted callTimes"
    and le: "currentIndex b \<le> length (messages b)"
    and k: "k < length (messages b)" and j: "j < length callTimes"
    and reach: "timestamp_ms (messages b ! k) \<le> fl (callTimes ! j + BATCH_WINDOW_MS)"
    and enough: "j + k div BATCH_MAX_MESSAGES < length callTimes"
  shows "k < currentIndex (snd (getBatches b callTimes))"
proof -
  let ?b1 = "snd (getBatches b (take j callTimes))"
  have m1: "messages ?b1 = messages b" by (rule getBatches_messages)
  have le1: "currentIndex ?b1 \<le> length (messages ?b1)"
    using le by (simp add: getBatches_cursor_bound m1)
  have later: "\<forall>t \<in> set (drop j callTimes).
                 timestamp_ms (messages b ! k) \<le> fl (t + BATCH_WINDOW_MS)"
  proof
    fix t
    assume "t \<in> set (drop j callTimes)"
    then obtain i where i: "i < length (drop j callTimes)" "drop j callTimes ! i = t"
      by (auto simp add: in_set_conv_nth)
    have "j \<le> j + i" "j + i < length callTimes" using i(1) by simp_all
    then have "callTimes ! j \<le> callTimes ! (j + i)"
      by (rule sorted_nth_mono[OF tsrt])
    then have "callTimes ! j \<le> t" using i j by simp
    then have "fl (callTimes ! j + BATCH_WINDOW_MS) \<le> fl (t + BATCH_WINDOW_MS)"
      by (intro fl_mono) simp
    then show "timestamp_ms (messages b ! k) \<le> fl (t + BATCH_WINDOW_MS)" using reach by simp
  qed
  have "min (k + 1) (currentIndex ?b1 + BATCH_MAX_MESSAGES * length (drop j callTimes))
          \<le> currentIndex (snd (getBatches ?b1 (drop j callTimes)))"
    using srt k le1 later by (intro getBatches_progress) (simp_all add: m1)
  moreover have "snd (getBatches ?b1 (drop j callTimes)) = snd (getBatches b callTimes)"
    using getBatches_append[of b "take j callTimes" "drop j callTimes"] by simp
  moreover have "k + 1 \<le> BATCH_MAX_MESSAGES * length (drop j callTimes)"
  proof -
    have "k div 12 + 1 \<le> length callTimes - j" using enough by (simp add: BATCH_MAX_MESSAGES_def)
    then have "12 * (k div 12 + 1) \<le> 12 * (length callTimes - j)" by simp
    moreover have "k + 1 \<le> 12 * (k div 12 + 1)" by presburger
    ultimately show ?thesis by (simp add: BATCH_MAX_MESSAGES_def)
  qed
  ultimately show ?thesis by simp
qed

lemma batchCursors_last: "last (batchCursors b ts) = currentIndex (snd (getBatches b ts))"
proof (induction ts arbitrary: b)
  case Nil
  then show ?case by simp
next
  case (Cons t ts)
  have "batchCursors (snd (getNextBatch b t)) ts \<noteq> []"
    using batchCursors_length[of "snd (getNextBatch b t)" ts] by auto
  then have "last (batchCursors b (t # ts)) = last (batchCursors (snd (getNextBatch b t)) ts)"
    by simp
  also have "\<dots> = currentIndex (snd (getBatches (snd (getNextBatch b t)) ts))"
    by (rule Cons.IH)
  finally show ?case by (simp only: getBatches_Cons snd_conv)
qed

text \<open>
  Claim C5: for a message list sorted by timestamp and a non-decreasing sequence of
  \<open>currentTimeMs\<close> values passed to \<open>getNextBatch\<close>, with no \<open>reset\<close>: the cursor
  positions are non-decreasing; the batch of each call is the slice of the list between
  the cursor before and the cursor after the call, so the batches, one after the other,
  are the list up to the final cursor: each event is returned at most once, in the
  original order. And every event is returned eventually: once the window of a call
  reaches the timestamp of the event at index \<open>k\<close>, after at most
  \<open>k div BATCH_MAX_MESSAGES + 1\<close> calls from that call on the cursor is past \<open>k\<close>.
  The end of the window is the sum \<open>currentTimeMs + BATCH_WINDOW_MS\<close> as the code
  computes it, in double arithmetic; for a timestamp that is a double, to be at most the
  exact sum is enough.
\<close>

theorem batches_deliver_each_event_once:
  assumes "sorted (map timestamp_ms msgs)" and "sorted callTimes"
  shows "sorted (batchCursors (newMessageBatcher msgs) callTimes)
   \<and> length (batchCursors (newMessageBatcher msgs) callTimes) = Suc (length callTimes)
   \<and> last (batchCursors (newMessageBatcher msgs) callTimes)
       = currentIndex (snd (getBatches (newMessageBatcher msgs) callTimes))
   \<and> length (fst (getBatches (newMessageBatcher msgs) callTimes)) = length callTimes
   \<and> (\<forall>n. n < length callTimes \<longrightarrow>
         fst (getBatches (newMessageBatcher msgs) callTimes) ! n
           = take (batchCursors (newMessageBatcher msgs) callTimes ! Suc n
                   - batchCursors (newMessageBatcher msgs) callTimes ! n)
               (drop (batchCursors (newMessageBatcher msgs) callTimes ! n) msgs))
   \<and> concat (fst (getBatches (newMessageBatcher msgs) callTimes))
       = take (currentIndex (snd (getBatches (newMessageBatcher msgs) callTimes))) msgs
   \<and> messages (snd (getBatches (newMessageBatcher msgs) callTimes)) = msgs
   \<and> currentIndex (snd (getBatches (newMessageBatcher msgs) callTimes)) \<le> length msgs
   \<and> (\<forall>k j. k < length msgs \<and> j < length callTimes
           \<and> timestamp_ms (msgs ! k) \<le> fl (callTimes ! j + BATCH_WINDOW_MS)
           \<and> j + k div BATCH_MAX_MESSAGES < length callTimes
         \<longrightarrow> k < currentIndex (snd (getBatches (newMessageBatcher msgs) callTimes)))
   \<and> (\<forall>k j. k < length msgs \<and> j < length callTimes
           \<and> fl (timestamp_ms (msgs ! k)) = timestamp_ms (msgs ! k)
           \<and> timestamp_ms (msgs ! k) \<le> callTimes ! j + BATCH_WINDOW_MS
           \<and> j + k div BATCH_MAX_MESSAGES < length callTimes
         \<longrightarrow> k < currentIndex (snd (getBatches (newMessageBatcher msgs) callTimes)))"
proof -
  let ?b = "newMessageBatcher msgs"
  have m: "messages ?b = msgs" and c: "currentIndex ?b = 0"
    by (simp_all add: newMessageBatcher_def)
  have le: "currentIndex ?b \<le> length (messages ?b)" by (simp add: c)
  have p1: "sorted (batchCursors ?b callTimes)" by (rule batchCursors_sorted)
  have p2: "length (batchCursors ?b callTimes) = Suc (length callTimes)"
    by (rule batchCursors_length)
  have p3: "last (batchCursors ?b callTimes) = currentIndex (snd (getBatches ?b callTimes))"
    by (rule batchCursors_last)
  have p4: "length (fst (getBatches ?b callTimes)) = length callTimes"
    by (rule getBatches_length)
  have p5: "\<forall>n. n < length callTimes \<longrightarrow>
         fst (getBatches ?b callTimes) ! n
           = take (batchCursors ?b callTimes ! Suc n - batchCursors ?b callTimes ! n)
               (drop (batchCursors ?b callTimes ! n) msgs)"
    using getBatches_slices[OF le, of _ callTimes] by (simp add: m)
  have p6: "concat (fst (getBatches ?b callTimes))
       = take (currentIndex (snd (getBatches ?b callTimes))) msgs"
    using getBatches_concat[OF le, of callTimes] by (simp add: m c)
  have p7: "messages (snd (getBatches ?b callTimes)) = msgs"
    by (simp add: getBatches_messages m)
  have p8: "currentIndex (snd (getBatches ?b callTimes)) \<le> length msgs"
    using getBatches_cursor_bound[OF le, of callTimes] by (simp add: m)
  have p9: "\<forall>k j. k < length msgs \<and> j < length callTimes
           \<and> timestamp_ms (msgs ! k) \<le> fl (callTimes ! j + BATCH_WINDOW_MS)
           \<and> j + k div BATCH_MAX_MESSAGES < length callTimes
         \<longrightarrow> k < currentIndex (snd (getBatches ?b callTimes))"
  proof (intro allI impI)
    fix k j
    assume a: "k < length msgs \<and> j < length callTimes
           \<and> timestamp_ms (msgs ! k) \<le> fl (callTimes ! j + BATCH_WINDOW_MS)
           \<and> j + k div BATCH_MAX_MESSAGES < length callTimes"
    have s: "sorted (map timestamp_ms (messages ?b))" using assms(1) by (simp add: m)
    show "k < currentIndex (snd (getBatches ?b callTimes))"
      using a by (intro getBatches_eventually[OF s assms(2) le, of k j]) (simp_all add: m)
  qed
  have p10: "\<forall>k j. k < length msgs \<and> j < length callTimes
           \<and> fl (timestamp_ms (msgs ! k)) = timestamp_ms (msgs ! k)
           \<and> timestamp_ms (msgs ! k) \<le> callTimes ! j + BATCH_WINDOW_MS
           \<and> j + k div BATCH_MAX_MESSAGES < length callTimes
         \<longrightarrow> k < currentIndex (snd (getBatches ?b callTimes))"
  proof (intro allI impI)
    fix k j
    assume a: "k < length msgs \<and> j < length callTimes
           \<and> fl (timestamp_ms (msgs ! k)) = timestamp_ms (msgs ! k)
           \<and> timestamp_ms (msgs ! k) \<le> callTimes ! j + BATCH_WINDOW_MS
           \<and> j + k div BATCH_MAX_MESSAGES < length callTimes"
    then have "fl (timestamp_ms (msgs ! k)) \<le> fl (callTimes ! j + BATCH_WINDOW_MS)"
      by (intro fl_mono) simp
    then have "timestamp_ms (msgs ! k) \<le> fl (callTimes ! j + BATCH_WINDOW_MS)"
      using a by simp
    then show "k < currentIndex (snd (getBatches ?b callTimes))"
      using a p9 by blast
  qed
  show ?thesis using p1 p2 p3 p4 p5 p6 p7 p8 p9 p10 by blast
qed

lemma window_values: "fl 500 = 500" "fl 1700 = 1700"
  using fl_of_int[of 500] fl_of_int[of 1700] by simp_all

lemma three_messages_batches:
  "getBatches (newMessageBatcher [bareMessage ''a'' 0, bareMessage ''b'' 400, bareMessage ''c'' 1200])
     [0, 1200]
   = ([[bareMessage ''a'' 0, bareMessage ''b'' 400], [bareMessage ''c'' 1200]],
      \<lparr> messages = [bareMessage ''a'' 0, bareMessage ''b'' 400, bareMessage ''c'' 1200],
        currentIndex = 3 \<rparr>)"
  by (simp add: getNextBatch_def newMessageBatcher_def bareMessage_def BATCH_WINDOW_MS_def
      BATCH_MAX_MESSAGES_def getNextBatch_loop.simps Let_def window_values)

theorem batches_deliver_each_event_once_witness:
  "sorted (map timestamp_ms [bareMessage ''a'' 0, bareMessage ''b'' 400, bareMessage ''c'' 1200])
   \<and> sorted [0, 1200 :: real]
   \<and> fst (getBatches
            (newMessageBatcher [bareMessage ''a'' 0, bareMessage ''b'' 400, bareMessage ''c'' 1200])
            [0, 1200])
       = [[bareMessage ''a'' 0, bareMessage ''b'' 400], [bareMessage ''c'' 1200]]
   \<and> timestamp_ms ([bareMessage ''a'' 0, bareMessage ''b'' 400, bareMessage ''c'' 1200] ! 2)
       \<le> fl ([0, 1200] ! 1 + BATCH_WINDOW_MS)
   \<and> (2::nat) < currentIndex (snd (getBatches
            (newMessageBatcher [bareMessage ''a'' 0, bareMessage ''b'' 400, bareMessage ''c'' 1200])
            [0, 1200]))"
proof -
  let ?msgs = "[bareMessage ''a'' 0, bareMessage ''b'' 400, bareMessage ''c'' 1200]"
  have s1: "sorted (map timestamp_ms ?msgs)" by (simp add: bareMessage_def)
  have s2: "sorted [0, 1200 :: real]" by simp
  have f: "fst (getBatches (newMessageBatcher ?msgs) [0, 1200])
       = [[bareMessage ''a'' 0, bareMessage ''b'' 400], [bareMessage ''c'' 1200]]"
    by (simp only: three_messages_batches fst_conv)
  have r: "timestamp_ms (?msgs ! 2) \<le> fl ([0, 1200] ! 1 + BATCH_WINDOW_MS)"
    by (simp add: bareMessage_def BATCH_WINDOW_MS_def window_values)
  have h: "(2::nat) < length ?msgs \<and> (1::nat) < length [0, 1200 :: real]
           \<and> timestamp_ms (?msgs ! 2) \<le> fl ([0, 1200] ! 1 + BATCH_WINDOW_MS)
           \<and> 1 + 2 div BATCH_MAX_MESSAGES < length [0, 1200 :: real]"
    using r by (simp add: BATCH_MAX_MESSAGES_def)
  have "(2::nat) < currentIndex (snd (getBatches (newMessageBatcher ?msgs) [0, 1200]))"
    using batches_deliver_each_event_once[OF s1 s2] h by blast
  then show ?thesis using s1 s2 f r by blast
qed

section \<open>The scenario of three events, and streams of no duration\<close>

lemma scenario_first_batch:
  "getNextBatch (newMessageBatcher (scenario_events m0 m1 m2)) 0
   = (([m0\<lparr>timestamp_ms := 0\<rparr>, m1\<lparr>timestamp_ms := 400\<rparr>], Some 1200),
      \<lparr> messages = scenario_events m0 m1 m2, currentIndex = 2 \<rparr>)"
  by (simp add: getNextBatch_def newMessageBatcher_def scenario_events_def BATCH_WINDOW_MS_def
      BATCH_MAX_MESSAGES_def getNextBatch_loop.simps Let_def window_values)

lemma scenario_second_batch:
  "getNextBatch \<lparr> messages = scenario_events m0 m1 m2, currentIndex = 2 \<rparr> 1200
   = (([m2\<lparr>timestamp_ms := 1200\<rparr>], None),
      \<lparr> messages = scenario_events m0 m1 m2, currentIndex = 3 \<rparr>)"
  by (simp add: getNextBatch_def scenario_events_def BATCH_WINDOW_MS_def
      BATCH_MAX_MESSAGES_def getNextBatch_loop.simps Let_def window_values)

lemma scenario_duration:
  "batcher_streamDurationMs (newMessageBatcher (scenario_events m0 m1 m2)) = 1200"
  by (simp add: batcher_streamDurationMs_def newMessageBatcher_def scenario_events_def)

lemma frames_until_1200: "fl (1200 / fl (1000 / FRAMERATE)) = 36"
  by code_simp

lemma time_at_frame_36: "fl (36 * fl (1000 / FRAMERATE)) = 1200"
  by code_simp

text \<open>
  The quotient is rounded before \<open>Math.floor\<close>: 1000 ms are 30 frames in exact
  arithmetic, and 29 in the code, where the frame takes slightly more than 100/3 ms.
\<close>

lemma frames_until_1000: "getFrameCountUntil (newFrameScheduler 3000) (Some 1000) = 29"
  by code_simp

lemma duration_1200: "fl 1200 = 1200"
  using fl_of_int[of 1200] by simp

lemma totalFrames_at_least_36:
  assumes "1200 \<le> d"
  shows "36 \<le> totalFrames (newFrameScheduler d)"
proof -
  have "0 \<le> fl (1000 / FRAMERATE)" by (simp add: frameDuration_value)
  then have "1200 / fl (1000 / FRAMERATE) \<le> d / fl (1000 / FRAMERATE)"
    using assms by (rule divide_right_mono[rotated])
  then have "fl (1200 / fl (1000 / FRAMERATE)) \<le> fl (d / fl (1000 / FRAMERATE))"
    by (rule fl_mono)
  then have "36 \<le> fl (d / fl (1000 / FRAMERATE))" by (simp only: frames_until_1200)
  also have "\<dots> \<le> real_of_int \<lceil>fl (d / fl (1000 / FRAMERATE))\<rceil>" by (rule le_of_int_ceiling)
  finally have "(36::int) \<le> \<lceil>fl (d / fl (1000 / FRAMERATE))\<rceil>" by linarith
  then show ?thesis by (simp add: newFrameScheduler_def)
qed

text \<open>
  Claim C2: with the configured framerate 30, batch window 500 ms and batch size 12, and
  three events at 0, 400 and 1200 ms, whose stream duration is 1200 ms: the first
  \<open>getNextBatch(0)\<close> returns exactly the events at 0 and 400, with
  \<open>nextBatchTimeMs = 1200\<close>. On a scheduler built for that duration or for any longer
  one, at cursor 0, \<open>getFrameCountUntil(1200)\<close> is \<open>floor(1200 / frameDurationMs) = 36\<close>,
  whatever the number of frames that remain; after \<open>skipFrames(36)\<close> the cursor is 36,
  the current time is 1200 and \<open>getNextBatch(1200)\<close> returns exactly the event at 1200,
  with \<open>nextBatchTimeMs = null\<close>; and \<open>getFrameCountUntil(null)\<close> then returns
  \<open>totalFrames\<close> minus the cursor, which is \<open>totalFrames - 36\<close>: 0 for the scheduler
  built from the batcher's stream duration.
\<close>

theorem scenario_three_events:
  assumes "1200 \<le> d"
  shows "(let b0 = newMessageBatcher (scenario_events m0 m1 m2);
        s0 = newFrameScheduler d;
        r1 = getNextBatch b0 0;
        s1 = skipFrames s0 36;
        r2 = getNextBatch (snd r1) 1200;
        sb = newFrameScheduler (batcher_streamDurationMs b0)
    in BATCH_WINDOW_MS = 500 \<and> BATCH_MAX_MESSAGES = 12 \<and> FRAMERATE = 30
       \<and> batcher_streamDurationMs b0 = 1200
       \<and> fst r1 = ([m0\<lparr>timestamp_ms := 0\<rparr>, m1\<lparr>timestamp_ms := 400\<rparr>], Some 1200)
       \<and> currentFrame s0 = 0
       \<and> getFrameCountUntil s0 (Some 1200) = 36
       \<and> \<lfloor>fl (1200 / frameDurationMs s0)\<rfloor> = 36
       \<and> \<lfloor>1200 / (1000 / FRAMERATE)\<rfloor> = 36
       \<and> currentFrame s1 = 36
       \<and> getCurrentTimeMs s1 = 1200
       \<and> fst r2 = ([m2\<lparr>timestamp_ms := 1200\<rparr>], None)
       \<and> getFrameCountUntil s1 None = totalFrames s1 - currentFrame s1
       \<and> getFrameCountUntil s1 None = totalFrames s0 - 36
       \<and> getFrameCountUntil sb (Some 1200) = 36
       \<and> getFrameCountUntil (skipFrames sb 36) None = 0)"
proof -
  let ?s0 = "newFrameScheduler d"
  let ?s1 = "skipFrames ?s0 36"
  let ?sb = "newFrameScheduler 1200"
  have c: "BATCH_WINDOW_MS = 500 \<and> BATCH_MAX_MESSAGES = 12 \<and> FRAMERATE = 30"
    by (simp add: BATCH_WINDOW_MS_def BATCH_MAX_MESSAGES_def FRAMERATE_def)
  have tf: "36 \<le> totalFrames (newFrameScheduler x)" if "1200 \<le> x" for x
    using that by (rule totalFrames_at_least_36)
  have fd: "frameDurationMs (newFrameScheduler x) = fl (1000 / FRAMERATE)" for x
    by (simp add: newFrameScheduler_def)
  have cf: "currentFrame (newFrameScheduler x) = 0" for x
    by (simp add: newFrameScheduler_def)
  have t0: "getCurrentTimeMs (newFrameScheduler x) = 0" for x
    by (simp add: getCurrentTimeMs_def cf fl_zero)
  have count: "getFrameCountUntil (newFrameScheduler x) (Some 1200) = 36" if "1200 \<le> x" for x
    using tf[OF that]
    by (simp add: getFrameCountUntil_def Let_def t0 fd cf duration_1200 frames_until_1200)
  have skip: "currentFrame (skipFrames (newFrameScheduler x) 36) = 36" if "1200 \<le> x" for x
    using tf[OF that] by (simp add: skipFrames_def cf)
  have rest: "getFrameCountUntil (skipFrames (newFrameScheduler x) 36) None
              = totalFrames (newFrameScheduler x) - 36" if "1200 \<le> x" for x
    using skip[OF that] by (simp add: getFrameCountUntil_def Let_def) (simp add: skipFrames_def)
  have f0: "currentFrame ?s0 = 0" by (rule cf)
  have f1: "getFrameCountUntil ?s0 (Some 1200) = 36" using assms by (rule count)
  have f2: "\<lfloor>fl (1200 / frameDurationMs ?s0)\<rfloor> = 36" by (simp add: fd frames_until_1200)
  have f2': "\<lfloor>1200 / (1000 / FRAMERATE)\<rfloor> = 36" by (simp add: FRAMERATE_def)
  have f3: "currentFrame ?s1 = 36" using assms by (rule skip)
  have "frameDurationMs ?s1 = fl (1000 / FRAMERATE)" by (simp add: skipFrames_def fd)
  then have f4: "getCurrentTimeMs ?s1 = 1200"
    by (simp add: getCurrentTimeMs_def f3 time_at_frame_36)
  have f5: "getFrameCountUntil ?s1 None = totalFrames ?s1 - currentFrame ?s1"
    by (simp add: getFrameCountUntil_def Let_def)
  have f6: "getFrameCountUntil ?s1 None = totalFrames ?s0 - 36" using assms by (rule rest)
  have f7: "getFrameCountUntil ?sb (Some 1200) = 36" by (rule count) simp
  have "getFrameCountUntil (skipFrames ?sb 36) None = totalFrames ?sb - 36" by (rule rest) simp
  then have f8: "getFrameCountUntil (skipFrames ?sb 36) None = 0" by (simp add: scheduler_1200)
  show ?thesis
    unfolding Let_def scenario_duration scenario_first_batch snd_conv fst_conv
      scenario_second_batch
    using c f0 f1 f2 f2' f3 f4 f5 f6 f7 f8 by blast
qed

lemma scheduler_3000_frames: "totalFrames (newFrameScheduler 3000) = 90"
  by code_simp

theorem scenario_three_events_witness:
  "(1200::real) \<le> 3000
   \<and> getFrameCountUntil (newFrameScheduler 3000) (Some 1200) = 36
   \<and> totalFrames (newFrameScheduler 3000) - currentFrame (newFrameScheduler 3000) = 90
   \<and> getCurrentTimeMs (skipFrames (newFrameScheduler 3000) 36) = 1200
   \<and> getFrameCountUntil (skipFrames (newFrameScheduler 3000) 36) None = 54"
proof -
  have d: "(1200::real) \<le> 3000" by simp
  note t = scenario_three_events[OF d, of "bareMessage ''a'' 0" "bareMessage ''b'' 0"
      "bareMessage ''c'' 0", unfolded Let_def]
  have a: "getFrameCountUntil (newFrameScheduler 3000) (Some 1200) = 36"
    using t by blast
  have "currentFrame (newFrameScheduler 3000) = 0" using t by blast
  then have b: "totalFrames (newFrameScheduler 3000) - currentFrame (newFrameScheduler 3000) = 90"
    by (simp add: scheduler_3000_frames)
  have c: "getCurrentTimeMs (skipFrames (newFrameScheduler 3000) 36) = 1200"
    using t by blast
  have "getFrameCountUntil (skipFrames (newFrameScheduler 3000) 36) None
        = totalFrames (newFrameScheduler 3000) - 36"
    using t by blast
  then have e: "getFrameCountUntil (skipFrames (newFrameScheduler 3000) 36) None = 54"
    by (simp add: scheduler_3000_frames)
  show ?thesis using d a b c e by blast
qed

lemma render_loop_done: "isDone (scheduler (snd cr)) \<Longrightarrow> render_loop cr = cr"
  by (subst render_loop.simps) simp

lemma render_zero_duration:
  assumes "batcher_streamDurationMs (newMessageBatcher msgs) = 0"
  shows "render msgs =
           \<lparr> batcher = newMessageBatcher msgs,
             chatState = newChatState,
             scheduler = (newFrameScheduler 0)\<lparr>currentFrame := 1\<rparr>,
             page = None,
             written = [None] \<rparr>"
proof -
  let ?r = "\<lparr> batcher = newMessageBatcher msgs,
             chatState = newChatState,
             scheduler = (newFrameScheduler 0)\<lparr>currentFrame := 1\<rparr>,
             page = None,
             written = [None] \<rparr>"
  have c: "captureAndWrite (initialize msgs) = (None, ?r)"
    using assms
    by (simp add: captureAndWrite_def initialize_def advance_def Let_def newFrameScheduler_def)
  have d: "isDone (scheduler (snd (None, ?r)))"
    by (simp add: isDone_def newFrameScheduler_def fl_zero)
  have "render_loop (None, ?r) = (None, ?r)"
    using d by (rule render_loop_done)
  then show ?thesis by (simp add: render_def c)
qed

lemma streamDuration_last:
  "msgs \<noteq> [] \<Longrightarrow> batcher_streamDurationMs (newMessageBatcher msgs) = timestamp_ms (last msgs)"
  by (simp add: batcher_streamDurationMs_def newMessageBatcher_def last_conv_nth)

text \<open>
  Claim C9: an empty event list is valid input. Every batch taken from it is empty with
  \<open>nextBatchTimeMs = null\<close>; the batcher's \<open>streamDurationMs\<close> is 0; the scheduler
  built from it has \<open>totalFrames = 0\<close> and is done at its initial cursor 0; and
  \<open>render\<close> writes the initial frame and no other.
\<close>

theorem empty_stream_done_immediately:
  "batcher_streamDurationMs (newMessageBatcher []) = 0
   \<and> fst (getNextBatch (newMessageBatcher []) t) = ([], None)
   \<and> totalFrames (newFrameScheduler (batcher_streamDurationMs (newMessageBatcher []))) = 0
   \<and> currentFrame (newFrameScheduler (batcher_streamDurationMs (newMessageBatcher []))) = 0
   \<and> isDone (newFrameScheduler (batcher_streamDurationMs (newMessageBatcher [])))
   \<and> written (render []) = [None]
   \<and> isDone (scheduler (render []))"
proof -
  have d: "batcher_streamDurationMs (newMessageBatcher []) = 0"
    by (simp add: batcher_streamDurationMs_def newMessageBatcher_def)
  have b: "fst (getNextBatch (newMessageBatcher []) t) = ([], None)"
    by (simp add: getNextBatch_def newMessageBatcher_def getNextBatch_loop.simps Let_def)
  have s: "totalFrames (newFrameScheduler 0) = 0 \<and> currentFrame (newFrameScheduler 0) = 0
           \<and> isDone (newFrameScheduler 0)"
    by (simp add: newFrameScheduler_def isDone_def fl_zero)
  have r: "written (render []) = [None] \<and> isDone (scheduler (render []))"
    by (simp add: render_zero_duration[OF d] isDone_def newFrameScheduler_def fl_zero)
  show ?thesis using d b s r by simp
qed

text \<open>
  Claim C10: for every non-empty message list, the batcher's \<open>streamDurationMs\<close> is the
  \<open>timestamp_ms\<close> of the last message, so the scheduler's \<open>totalFrames\<close> is
  \<open>ceil(lastTimestamp / frameDurationMs)\<close> with \<open>frameDurationMs = 1000 / FRAMERATE\<close>,
  both quotients as computed in double arithmetic.
  When all messages carry timestamp 0, \<open>totalFrames\<close> is 0 and the scheduler is done at
  construction: \<open>render\<close> writes the initial frame of the empty page only, takes no batch
  and adds no message to the chat state.
\<close>

theorem duration_is_last_timestamp:
  assumes "msgs \<noteq> []"
  shows "batcher_streamDurationMs (newMessageBatcher msgs) = timestamp_ms (last msgs)
   \<and> frameDurationMs (newFrameScheduler (batcher_streamDurationMs (newMessageBatcher msgs)))
       = fl (1000 / FRAMERATE)
   \<and> totalFrames (newFrameScheduler (batcher_streamDurationMs (newMessageBatcher msgs)))
       = \<lceil>fl (timestamp_ms (last msgs)
           / frameDurationMs (newFrameScheduler (batcher_streamDurationMs (newMessageBatcher msgs))))\<rceil>
   \<and> ((\<forall>m \<in> set msgs. timestamp_ms m = 0) \<longrightarrow>
         totalFrames (newFrameScheduler (batcher_streamDurationMs (newMessageBatcher msgs))) = 0
         \<and> isDone (newFrameScheduler (batcher_streamDurationMs (newMessageBatcher msgs)))
         \<and> written (render msgs) = [None]
         \<and> currentIndex (batcher (render msgs)) = 0
         \<and> visibleMessages (chatState (render msgs)) = [])"
proof -
  have d: "batcher_streamDurationMs (newMessageBatcher msgs) = timestamp_ms (last msgs)"
    using assms by (rule streamDuration_last)
  have f: "frameDurationMs (newFrameScheduler x) = fl (1000 / FRAMERATE)" for x
    by (simp add: newFrameScheduler_def)
  have t: "totalFrames (newFrameScheduler x)
           = \<lceil>fl (x / frameDurationMs (newFrameScheduler x))\<rceil>" for x
    by (simp add: newFrameScheduler_def)
  have z: "(\<forall>m \<in> set msgs. timestamp_ms m = 0) \<longrightarrow>
         totalFrames (newFrameScheduler (timestamp_ms (last msgs))) = 0
         \<and> isDone (newFrameScheduler (timestamp_ms (last msgs)))
         \<and> written (render msgs) = [None]
         \<and> currentIndex (batcher (render msgs)) = 0
         \<and> visibleMessages (chatState (render msgs)) = []"
  proof
    assume a: "\<forall>m \<in> set msgs. timestamp_ms m = 0"
    then have l: "timestamp_ms (last msgs) = 0" using assms by simp
    then have d0: "batcher_streamDurationMs (newMessageBatcher msgs) = 0" using d by simp
    show "totalFrames (newFrameScheduler (timestamp_ms (last msgs))) = 0
         \<and> isDone (newFrameScheduler (timestamp_ms (last msgs)))
         \<and> written (render msgs) = [None]
         \<and> currentIndex (batcher (render msgs)) = 0
         \<and> visibleMessages (chatState (render msgs)) = []"
      by (simp add: l render_zero_duration[OF d0] newFrameScheduler_def isDone_def
          newMessageBatcher_def newChatState_def fl_zero)
  qed
  show ?thesis unfolding d using f t z by blast
qed

theorem duration_is_last_timestamp_witness:
  "[bareMessage ''a'' 0, bareMessage ''b'' 0] \<noteq> []
   \<and> list_all (\<lambda>m. timestamp_ms m = 0) [bareMessage ''a'' 0, bareMessage ''b'' 0]
   \<and> batcher_streamDurationMs (newMessageBatcher [bareMessage ''a'' 0, bareMessage ''b'' 0]) = 0
   \<and> written (render [bareMessage ''a'' 0, bareMessage ''b'' 0]) = [None]"
proof -
  have n: "[bareMessage ''a'' 0, bareMessage ''b'' 0] \<noteq> []" by simp
  have a: "\<forall>m \<in> set [bareMessage ''a'' 0, bareMessage ''b'' 0]. timestamp_ms m = 0"
    by (simp add: bareMessage_def)
  have l: "timestamp_ms (last [bareMessage ''a'' 0, bareMessage ''b'' 0]) = 0"
    by (simp add: bareMessage_def)
  have la: "list_all (\<lambda>m. timestamp_ms m = 0) [bareMessage ''a'' 0, bareMessage ''b'' 0]"
    by (simp add: bareMessage_def)
  have d: "batcher_streamDurationMs (newMessageBatcher [bareMessage ''a'' 0, bareMessage ''b'' 0]) = 0"
    using l duration_is_last_timestamp[OF n] by simp
  have w: "written (render [bareMessage ''a'' 0, bareMessage ''b'' 0]) = [None]"
    using a duration_is_last_timestamp[OF n] by blast
  show ?thesis using n la d w by blast
qed

end
